theory Spec2Isabelle
  imports Complex_Main "HOL-Library.Word"
begin

unbundle bit_operations_syntax

section \<open>Faults, results and memory\<close>

text \<open>
  The C code has undefined behaviour on some paths (a dangling pointer, a read or a write
  outside a buffer, a signed overflow, a floating value converted to an \<open>int\<close> it does
  not fit, \<open>free\<close> of what is not a live allocation). Each of them is a value \<open>Inl fault\<close> of the model, as is running out of the
  fuel that bounds the recursion over pointer structures. \<open>Inr\<close> is a normal return.
\<close>

datatype fault =
    OutOfFuel
  | BadPointer
  | ReadOutOfBounds
  | WriteOutOfBounds
  | IntOverflow
  | FloatToIntRange
  | BadFree

definition bnd :: "fault + 'a \<Rightarrow> ('a \<Rightarrow> fault + 'b) \<Rightarrow> fault + 'b" where
  "bnd m f = (case m of Inl e \<Rightarrow> Inl e | Inr x \<Rightarrow> f x)"

type_synonym addr = nat

text \<open>
  A \<open>double\<close>: a finite value (a rational; the two zeros are not told apart), an
  infinity or a NaN.
\<close>

datatype dbl = Finite rat | PosInf | NegInf | NaN

text \<open>
  \<open>struct cJSON\<close> of cJSON.h. Pointers are \<open>addr option\<close>, \<open>None\<close> the null pointer.
  The field \<open>next\<close> is called \<open>nxt\<close> here.
\<close>

record cJSON =
  nxt :: "addr option"
  prev :: "addr option"
  child :: "addr option"
  type :: "32 word"
  valuestring :: "addr option"
  valueint :: "32 word"
  valuedouble :: dbl
  string :: "addr option"

definition cJSON_Invalid :: "32 word" where "cJSON_Invalid = 0"
definition cJSON_False :: "32 word" where "cJSON_False = 1"
definition cJSON_True :: "32 word" where "cJSON_True = 2"
definition cJSON_NULL :: "32 word" where "cJSON_NULL = 4"
definition cJSON_Number :: "32 word" where "cJSON_Number = 8"
definition cJSON_String :: "32 word" where "cJSON_String = 16"
definition cJSON_Array :: "32 word" where "cJSON_Array = 32"
definition cJSON_Object :: "32 word" where "cJSON_Object = 64"
definition cJSON_Raw :: "32 word" where "cJSON_Raw = 128"
definition cJSON_IsReference :: "32 word" where "cJSON_IsReference = 256"
definition cJSON_StringIsConst :: "32 word" where "cJSON_StringIsConst = 512"
definition CJSON_NESTING_LIMIT :: nat where "CJSON_NESTING_LIMIT = 1000"

text \<open>
  The store: the live nodes and the live character buffers by address, the next address
  \<open>malloc\<close> hands out, the outcomes of the coming \<open>malloc\<close> calls (\<open>False\<close>: that
  call returns null; an exhausted list: every further call succeeds), the arguments
  \<open>cJSON_free\<close> was called with, latest first, and the static error pointer \<open>ep\<close>.
  The last field belongs to the environment rather than to the store: \<open>libm_pow10 e\<close> is
  what the C library's \<open>pow(10.0, e)\<close> returns for an exponent other than 0; the C
  standard does not say how accurate that is, so nothing is assumed of it.
  A buffer is stored without its terminating NUL. A pointer into the text being parsed is
  the list of the bytes from that position to the end of the memory object.
\<close>

record heap =
  nodes :: "addr \<rightharpoonup> cJSON"
  strs :: "addr \<rightharpoonup> char list"
  brk :: addr
  outcomes :: "bool list"
  freed :: "addr list"
  ep :: "char list option"
  libm_pow10 :: "int \<Rightarrow> dbl"

definition cJSON_malloc :: "heap \<Rightarrow> addr option \<times> heap" where
  "cJSON_malloc h =
     (case outcomes h of
        [] \<Rightarrow> (Some (brk h), h\<lparr>brk := brk h + 1\<rparr>)
      | ok # rest \<Rightarrow>
          if ok then (Some (brk h), h\<lparr>brk := brk h + 1, outcomes := rest\<rparr>)
          else (None, h\<lparr>outcomes := rest\<rparr>))"

text \<open>
  \<open>cJSON_free\<close> on a node pointer and on a \<open>char\<close> pointer. Freeing what is not
  live (never allocated, or freed before) is undefined in C and a fault here.
\<close>

definition free_node :: "addr \<Rightarrow> heap \<Rightarrow> fault + heap" where
  "free_node a h =
     (if nodes h a = None then Inl BadFree
      else Inr (h\<lparr>nodes := (nodes h)(a := None), freed := a # freed h\<rparr>))"

definition free_str :: "addr \<Rightarrow> heap \<Rightarrow> fault + heap" where
  "free_str a h =
     (if strs h a = None then Inl BadFree
      else Inr (h\<lparr>strs := (strs h)(a := None), freed := a # freed h\<rparr>))"

definition rd_node :: "heap \<Rightarrow> addr \<Rightarrow> fault + cJSON" where
  "rd_node h a = (case nodes h a of None \<Rightarrow> Inl BadPointer | Some n \<Rightarrow> Inr n)"

definition upd_node :: "heap \<Rightarrow> addr \<Rightarrow> (cJSON \<Rightarrow> cJSON) \<Rightarrow> fault + heap" where
  "upd_node h a f =
     (case nodes h a of
        None \<Rightarrow> Inl BadPointer
      | Some n \<Rightarrow> Inr (h\<lparr>nodes := (nodes h)(a \<mapsto> f n)\<rparr>))"

definition zero_item :: cJSON where
  "zero_item = \<lparr>nxt = None, prev = None, child = None, type = 0, valuestring = None,
                 valueint = 0, valuedouble = Finite 0, string = None\<rparr>"

definition cJSON_New_Item :: "heap \<Rightarrow> addr option \<times> heap" where
  "cJSON_New_Item h =
     (case cJSON_malloc h of
        (None, h1) \<Rightarrow> (None, h1)
      | (Some a, h1) \<Rightarrow> (Some a, h1\<lparr>nodes := (nodes h1)(a \<mapsto> zero_item)\<rparr>))"

text \<open>\<open>cJSON_strdup\<close>; the source string is given by its characters.\<close>

definition cJSON_strdup :: "char list option \<Rightarrow> heap \<Rightarrow> addr option \<times> heap" where
  "cJSON_strdup src h =
     (case src of
        None \<Rightarrow> (None, h)
      | Some s \<Rightarrow>
          (case cJSON_malloc h of
             (None, h1) \<Rightarrow> (None, h1)
           | (Some a, h1) \<Rightarrow> (Some a, h1\<lparr>strs := (strs h1)(a \<mapsto> s)\<rparr>)))"

section \<open>The value tree: deletion, creation, mutation\<close>

text \<open>
  \<open>cJSON_Delete\<close>. One unit of fuel is spent for every node visited, whether through
  \<open>child\<close> (the recursive call) or through \<open>next\<close> (the loop). The fields are read
  where the C code reads them: \<open>next\<close>, \<open>type\<close> and \<open>child\<close> before the recursive
  call, \<open>type\<close>, \<open>valuestring\<close> and \<open>string\<close> after it.
\<close>

fun cJSON_Delete :: "nat \<Rightarrow> addr option \<Rightarrow> heap \<Rightarrow> fault + heap" where
  "cJSON_Delete fuel None h = Inr h"
| "cJSON_Delete 0 (Some c) h = Inl OutOfFuel"
| "cJSON_Delete (Suc fuel) (Some c) h =
     bnd (rd_node h c) (\<lambda>n.
     bnd (if type n AND cJSON_IsReference = 0 \<and> child n \<noteq> None
          then cJSON_Delete fuel (child n) h else Inr h) (\<lambda>h1.
     bnd (rd_node h1 c) (\<lambda>n1.
     bnd (case valuestring n1 of
            Some s \<Rightarrow> if type n1 AND cJSON_IsReference = 0 then free_str s h1 else Inr h1
          | None \<Rightarrow> Inr h1) (\<lambda>h2.
     bnd (case string n1 of Some k \<Rightarrow> free_str k h2 | None \<Rightarrow> Inr h2) (\<lambda>h3.
     bnd (free_node c h3) (\<lambda>h4.
       cJSON_Delete fuel (nxt n) h4))))))"

definition create_item :: "32 word \<Rightarrow> heap \<Rightarrow> addr option \<times> heap" where
  "create_item t h =
     (case cJSON_New_Item h of
        (None, h1) \<Rightarrow> (None, h1)
      | (Some a, h1) \<Rightarrow> (Some a, h1\<lparr>nodes := (nodes h1)(a \<mapsto> zero_item\<lparr>type := t\<rparr>)\<rparr>))"

definition cJSON_CreateNull :: "heap \<Rightarrow> addr option \<times> heap" where
  "cJSON_CreateNull = create_item cJSON_NULL"

definition cJSON_CreateTrue :: "heap \<Rightarrow> addr option \<times> heap" where
  "cJSON_CreateTrue = create_item cJSON_True"

definition cJSON_CreateFalse :: "heap \<Rightarrow> addr option \<times> heap" where
  "cJSON_CreateFalse = create_item cJSON_False"

definition cJSON_CreateArray :: "heap \<Rightarrow> addr option \<times> heap" where
  "cJSON_CreateArray = create_item cJSON_Array"

definition cJSON_CreateObject :: "heap \<Rightarrow> addr option \<times> heap" where
  "cJSON_CreateObject = create_item cJSON_Object"

definition cJSON_CreateString :: "char list option \<Rightarrow> heap \<Rightarrow> addr option \<times> heap" where
  "cJSON_CreateString s h =
     (case cJSON_New_Item h of
        (None, h1) \<Rightarrow> (None, h1)
      | (Some a, h1) \<Rightarrow>
          (case cJSON_strdup s h1 of
             (p, h2) \<Rightarrow>
               (Some a, h2\<lparr>nodes := (nodes h2)(a \<mapsto> zero_item\<lparr>type := cJSON_String,
                                                              valuestring := p\<rparr>)\<rparr>)))"

text \<open>The loop \<open>while (c && c->next) c = c->next\<close> of \<open>cJSON_AddItemToArray\<close>.\<close>

fun last_sibling :: "nat \<Rightarrow> heap \<Rightarrow> addr \<Rightarrow> fault + addr" where
  "last_sibling 0 h c = Inl OutOfFuel"
| "last_sibling (Suc fuel) h c =
     bnd (rd_node h c) (\<lambda>n.
       case nxt n of None \<Rightarrow> Inr c | Some d \<Rightarrow> last_sibling fuel h d)"

definition cJSON_AddItemToArray :: "nat \<Rightarrow> addr \<Rightarrow> addr \<Rightarrow> heap \<Rightarrow> fault + heap" where
  "cJSON_AddItemToArray fuel array item h =
     bnd (rd_node h array) (\<lambda>arr.
       case child arr of
         None \<Rightarrow> upd_node h array (\<lambda>n. n\<lparr>child := Some item\<rparr>)
       | Some c0 \<Rightarrow>
           bnd (last_sibling fuel h c0) (\<lambda>c.
           bnd (upd_node h c (\<lambda>n. n\<lparr>nxt := Some item\<rparr>)) (\<lambda>h1.
             upd_node h1 item (\<lambda>n. n\<lparr>prev := Some c\<rparr>))))"

definition cJSON_AddItemToObject ::
  "nat \<Rightarrow> addr \<Rightarrow> char list option \<Rightarrow> addr \<Rightarrow> heap \<Rightarrow> fault + heap" where
  "cJSON_AddItemToObject fuel object key item h =
     (case cJSON_strdup key h of
        (p, h1) \<Rightarrow>
          bnd (upd_node h1 item (\<lambda>n. n\<lparr>string := p\<rparr>)) (\<lambda>h2.
            cJSON_AddItemToArray fuel object item h2))"

text \<open>
  \<open>cJSON_AddItemToObjectCS\<close> stores the caller's pointer itself: the key is an address.
\<close>

definition cJSON_AddItemToObjectCS ::
  "nat \<Rightarrow> addr \<Rightarrow> addr option \<Rightarrow> addr \<Rightarrow> heap \<Rightarrow> fault + heap" where
  "cJSON_AddItemToObjectCS fuel object key item h =
     bnd (upd_node h item (\<lambda>n. n\<lparr>string := key\<rparr>)) (\<lambda>h1.
     bnd (upd_node h1 item (\<lambda>n. n\<lparr>type := type n OR cJSON_StringIsConst\<rparr>)) (\<lambda>h2.
       cJSON_AddItemToArray fuel object item h2))"

text \<open>The loop \<open>while (c && which > 0) c = c->next, which--\<close>.\<close>

fun walk :: "heap \<Rightarrow> addr option \<Rightarrow> nat \<Rightarrow> fault + addr option" where
  "walk h None w = Inr None"
| "walk h (Some c) 0 = Inr (Some c)"
| "walk h (Some c) (Suc w) = bnd (rd_node h c) (\<lambda>n. walk h (nxt n) w)"

definition cJSON_DetachItemFromArray ::
  "addr option \<Rightarrow> int \<Rightarrow> heap \<Rightarrow> fault + (addr option \<times> heap)" where
  "cJSON_DetachItemFromArray array which h =
     (case array of
        None \<Rightarrow> Inr (None, h)
      | Some a \<Rightarrow>
          bnd (rd_node h a) (\<lambda>arr.
          bnd (walk h (child arr) (nat which)) (\<lambda>r.
            case r of
              None \<Rightarrow> Inr (None, h)
            | Some c \<Rightarrow>
                bnd (rd_node h c) (\<lambda>n.
                bnd (case prev n of
                       None \<Rightarrow> Inr h
                     | Some p \<Rightarrow> upd_node h p (\<lambda>m. m\<lparr>nxt := nxt n\<rparr>)) (\<lambda>h1.
                bnd (rd_node h1 c) (\<lambda>n1.
                bnd (case nxt n1 of
                       None \<Rightarrow> Inr h1
                     | Some q \<Rightarrow> upd_node h1 q (\<lambda>m. m\<lparr>prev := prev n1\<rparr>)) (\<lambda>h2.
                bnd (rd_node h2 a) (\<lambda>arr2.
                bnd (rd_node h2 c) (\<lambda>n2.
                bnd (if child arr2 = Some c
                     then upd_node h2 a (\<lambda>m. m\<lparr>child := nxt n2\<rparr>) else Inr h2) (\<lambda>h3.
                bnd (upd_node h3 c (\<lambda>m. m\<lparr>prev := None, nxt := None\<rparr>)) (\<lambda>h4.
                  Inr (Some c, h4))))))))))))"

definition cJSON_DeleteItemFromArray ::
  "nat \<Rightarrow> addr option \<Rightarrow> int \<Rightarrow> heap \<Rightarrow> fault + heap" where
  "cJSON_DeleteItemFromArray fuel array which h =
     bnd (cJSON_DetachItemFromArray array which h) (\<lambda>(c, h1).
       case c of None \<Rightarrow> Inr h1 | Some ca \<Rightarrow> cJSON_Delete fuel (Some ca) h1)"


section \<open>Shapes: what a pointer owns\<close>

text \<open>
  A shape lists the addresses of a node and of the nodes below it; a list of shapes
  describes a sibling chain. \<open>owns h p ss\<close>: following \<open>next\<close> from the pointer \<open>p\<close>
  visits the roots of \<open>ss\<close> in order and ends at null, and below each root, through the
  \<open>child\<close> pointer that \<open>cJSON_Delete\<close> follows (none for a reference node), lies the
  chain of its \<open>kids\<close>. \<open>dll\<close> asks in addition that the \<open>prev\<close> links of the chain
  itself mirror its \<open>next\<close> links, \<open>pr\<close> being the \<open>prev\<close> of the first node.
\<close>

datatype shape = Sh (root: addr) (kids: "shape list")

fun addrs :: "shape \<Rightarrow> addr list" and addrs_list :: "shape list \<Rightarrow> addr list" where
  "addrs (Sh a ks) = a # addrs_list ks"
| "addrs_list [] = []"
| "addrs_list (s # ss) = addrs s @ addrs_list ss"

definition owned_child :: "cJSON \<Rightarrow> addr option" where
  "owned_child n = (if type n AND cJSON_IsReference = 0 then child n else None)"

fun owns :: "heap \<Rightarrow> addr option \<Rightarrow> shape list \<Rightarrow> bool" where
  "owns h None ss = (ss = [])"
| "owns h (Some a) [] = False"
| "owns h (Some a) (Sh b ks # ss) =
     (a = b \<and>
      (case nodes h a of
         None \<Rightarrow> False
       | Some n \<Rightarrow> owns h (owned_child n) ks \<and> owns h (nxt n) ss))"

fun dll :: "heap \<Rightarrow> addr option \<Rightarrow> addr option \<Rightarrow> shape list \<Rightarrow> bool" where
  "dll h pr None ss = (ss = [])"
| "dll h pr (Some a) [] = False"
| "dll h pr (Some a) (Sh b ks # ss) =
     (a = b \<and>
      (case nodes h a of
         None \<Rightarrow> False
       | Some n \<Rightarrow> prev n = pr \<and> owns h (owned_child n) ks \<and> dll h (Some a) (nxt n) ss))"

text \<open>
  The character buffers that \<open>cJSON_Delete\<close> frees with a node: its \<open>valuestring\<close>
  unless the node is a reference, and its key \<open>string\<close>; \<open>strs_of h as\<close> collects them
  over the nodes at the addresses \<open>as\<close>. \<open>keys_owned\<close>: no node at these addresses
  carries a borrowed key (flag \<open>cJSON_StringIsConst\<close>).
\<close>

definition node_strs :: "cJSON \<Rightarrow> addr list" where
  "node_strs n =
     (case valuestring n of
        Some s \<Rightarrow> if type n AND cJSON_IsReference = 0 then [s] else []
      | None \<Rightarrow> []) @
     (case string n of Some k \<Rightarrow> [k] | None \<Rightarrow> [])"

definition strs_of :: "heap \<Rightarrow> addr list \<Rightarrow> addr list" where
  "strs_of h as = concat (map (\<lambda>a. case nodes h a of Some n \<Rightarrow> node_strs n | None \<Rightarrow> []) as)"

definition keys_owned :: "heap \<Rightarrow> addr list \<Rightarrow> bool" where
  "keys_owned h as =
     list_all (\<lambda>a. case nodes h a of
                      Some n \<Rightarrow> string n = None \<or> type n AND cJSON_StringIsConst = 0
                    | None \<Rightarrow> True) as"

text \<open>
  The same chain, node by node: \<open>link_ok h pr ss i\<close> says that the node at the root of
  the \<open>i\<close>-th shape is live, that its \<open>prev\<close> and \<open>next\<close> point to the roots of its
  neighbours in \<open>ss\<close> (to \<open>pr\<close> and to null at the two ends), and that it owns its kids.
\<close>

definition headptr :: "shape list \<Rightarrow> addr option" where
  "headptr ss = (case ss of [] \<Rightarrow> None | s # rest \<Rightarrow> Some (root s))"

definition link_ok :: "heap \<Rightarrow> addr option \<Rightarrow> shape list \<Rightarrow> nat \<Rightarrow> bool" where
  "link_ok h pr ss i =
     (case nodes h (root (ss ! i)) of
        None \<Rightarrow> False
      | Some n \<Rightarrow>
          prev n = (if i = 0 then pr else Some (root (ss ! (i - 1)))) \<and>
          nxt n = (if Suc i < length ss then Some (root (ss ! Suc i)) else None) \<and>
          owns h (owned_child n) (kids (ss ! i)))"

section \<open>Doubles\<close>

text \<open>
  IEEE 754 binary64 arithmetic in round-to-nearest-even: \<open>rnd\<close> maps the exact result to
  the nearest double (53 significant bits, exponents from -1022, subnormals below,
  infinity from \<open>2 ^ 1024\<close>).
\<close>

fun bit_length :: "nat \<Rightarrow> nat" where
  "bit_length n = (if n = 0 then 0 else Suc (bit_length (n div 2)))"

definition rne :: "rat \<Rightarrow> int" where
  "rne x =
     (let f = \<lfloor>x\<rfloor>; r = x - of_int f
      in if r < 1 / 2 then f else if 1 / 2 < r then f + 1 else if even f then f else f + 1)"

definition pow2 :: "int \<Rightarrow> rat" where
  "pow2 e = (if 0 \<le> e then 2 ^ nat e else 1 / 2 ^ nat (- e))"

definition binade :: "rat \<Rightarrow> int" where
  "binade x =
     (if 1 \<le> x then int (bit_length (nat \<lfloor>x\<rfloor>)) - 1
      else - int (bit_length (nat (\<lceil>1 / x\<rceil> - 1))))"

definition rnd :: "rat \<Rightarrow> dbl" where
  "rnd x =
     (if x = 0 then Finite 0
      else let u = pow2 (max (binade \<bar>x\<bar>) (- 1022) - 52);
               r = of_int (rne (\<bar>x\<bar> / u)) * u
           in if pow2 1024 \<le> r then (if 0 < x then PosInf else NegInf)
              else Finite (if 0 < x then r else - r))"

fun dneg :: "dbl \<Rightarrow> dbl" where
  "dneg (Finite x) = Finite (- x)"
| "dneg PosInf = NegInf"
| "dneg NegInf = PosInf"
| "dneg NaN = NaN"

fun dabs :: "dbl \<Rightarrow> dbl" where
  "dabs (Finite x) = Finite \<bar>x\<bar>"
| "dabs PosInf = PosInf"
| "dabs NegInf = PosInf"
| "dabs NaN = NaN"

fun dadd :: "dbl \<Rightarrow> dbl \<Rightarrow> dbl" where
  "dadd (Finite x) (Finite y) = rnd (x + y)"
| "dadd NaN b = NaN"
| "dadd a NaN = NaN"
| "dadd PosInf NegInf = NaN"
| "dadd NegInf PosInf = NaN"
| "dadd PosInf b = PosInf"
| "dadd NegInf b = NegInf"
| "dadd a PosInf = PosInf"
| "dadd a NegInf = NegInf"

definition dsub :: "dbl \<Rightarrow> dbl \<Rightarrow> dbl" where
  "dsub a b = dadd a (dneg b)"

fun dmul :: "dbl \<Rightarrow> dbl \<Rightarrow> dbl" where
  "dmul (Finite x) (Finite y) = rnd (x * y)"
| "dmul NaN b = NaN"
| "dmul a NaN = NaN"
| "dmul (Finite x) b = (if x = 0 then NaN else if 0 < x then b else dneg b)"
| "dmul a (Finite y) = (if y = 0 then NaN else if 0 < y then a else dneg a)"
| "dmul PosInf b = b"
| "dmul NegInf b = dneg b"

text \<open>The comparisons \<open><=\<close> and \<open><\<close> on doubles: false when an operand is a NaN.\<close>

fun dle :: "dbl \<Rightarrow> dbl \<Rightarrow> bool" where
  "dle (Finite x) (Finite y) = (x \<le> y)"
| "dle NaN b = False"
| "dle a NaN = False"
| "dle NegInf b = True"
| "dle a PosInf = True"
| "dle a b = False"

fun dlt :: "dbl \<Rightarrow> dbl \<Rightarrow> bool" where
  "dlt (Finite x) (Finite y) = (x < y)"
| "dlt NaN b = False"
| "dlt a NaN = False"
| "dlt PosInf b = False"
| "dlt a NegInf = False"
| "dlt a b = True"

text \<open>
  \<open>pow(10.0, e)\<close>: exactly 1 for the exponent 0 (C standard, annex F), the value the
  environment gives otherwise. \<open>pow10_nearest\<close> is the correctly rounded power, one
  possible environment.
\<close>

definition pow10_nearest :: "int \<Rightarrow> dbl" where
  "pow10_nearest e = rnd (if 0 \<le> e then 10 ^ nat e else 1 / 10 ^ nat (- e))"

definition c_pow10 :: "(int \<Rightarrow> dbl) \<Rightarrow> int \<Rightarrow> dbl" where
  "c_pow10 libm e = (if e = 0 then Finite 1 else libm e)"

definition DBL_EPSILON :: dbl where
  "DBL_EPSILON = Finite (pow2 (- 52))"

text \<open>
  The conversion \<open>(int)n\<close>: the value is truncated towards zero; the behaviour is
  undefined when the truncated value is not an \<open>int\<close> (32 bits).
\<close>

definition to_int :: "dbl \<Rightarrow> fault + 32 word" where
  "to_int d =
     (case d of
        Finite x \<Rightarrow>
          (let t = (if 0 \<le> x then \<lfloor>x\<rfloor> else \<lceil>x\<rceil>)
           in if - (2 ^ 31) \<le> t \<and> t < 2 ^ 31 then Inr (word_of_int t)
              else Inl FloatToIntRange)
      | _ \<Rightarrow> Inl FloatToIntRange)"

definition of_int32 :: "32 word \<Rightarrow> dbl" where
  "of_int32 w = Finite (of_int (sint w))"

section \<open>Reading the text\<close>

text \<open>
  Reading \<open>*p\<close> where \<open>p\<close> is at the end of the memory object is a fault, as is moving
  \<open>p\<close> beyond it.
\<close>

definition peek :: "char list \<Rightarrow> fault + char" where
  "peek p = (case p of [] \<Rightarrow> Inl ReadOutOfBounds | c # cs \<Rightarrow> Inr c)"

definition advance :: "char list \<Rightarrow> fault + char list" where
  "advance p = (case p of [] \<Rightarrow> Inl ReadOutOfBounds | c # cs \<Rightarrow> Inr cs)"

definition DQ :: char where "DQ = CHR 0x22"
definition BS :: char where "BS = CHR 0x5C"
definition NUL :: char where "NUL = CHR 0x00"

text \<open>\<open>skip\<close>: the loop on a non-null pointer, then the function.\<close>

fun skip_ws :: "char list \<Rightarrow> fault + char list" where
  "skip_ws [] = Inl ReadOutOfBounds"
| "skip_ws (c # cs) =
     (if c \<noteq> NUL \<and> of_char c \<le> (32::nat) then skip_ws cs else Inr (c # cs))"

definition skip :: "char list option \<Rightarrow> fault + char list option" where
  "skip p = (case p of None \<Rightarrow> Inr None | Some v \<Rightarrow> bnd (skip_ws v) (\<lambda>r. Inr (Some r)))"

text \<open>\<open>!strncmp(value, lit, n)\<close> for a literal \<open>lit\<close> of \<open>n\<close> characters, none of them NUL.\<close>

fun has_prefix :: "char list \<Rightarrow> char list \<Rightarrow> fault + bool" where
  "has_prefix p [] = Inr True"
| "has_prefix [] (l # ls) = Inl ReadOutOfBounds"
| "has_prefix (c # cs) (l # ls) = (if c = l then has_prefix cs ls else Inr False)"

fun strlen :: "char list \<Rightarrow> fault + nat" where
  "strlen [] = Inl ReadOutOfBounds"
| "strlen (c # cs) = (if c = NUL then Inr 0 else bnd (strlen cs) (\<lambda>n. Inr (Suc n)))"

section \<open>Number codec\<close>

definition is_digit :: "char \<Rightarrow> bool" where
  "is_digit c = (48 \<le> (of_char c :: nat) \<and> (of_char c :: nat) \<le> 57)"

definition digit_val :: "char \<Rightarrow> nat" where
  "digit_val c = of_char c - 48"

text \<open>
  The three digit loops of \<open>parse_number\<close>. The first one is entered on a digit from 1
  to 9, so the \<open>do ... while\<close> of the source is this \<open>while\<close>. Overflow of
  \<open>subscale\<close> is a fault; \<open>scale\<close> cannot overflow on a text of less than \<open>2 ^ 31\<close>
  bytes and is an unbounded integer here.
\<close>

fun int_digits :: "dbl \<Rightarrow> char list \<Rightarrow> fault + (dbl \<times> char list)" where
  "int_digits n [] = Inl ReadOutOfBounds"
| "int_digits n (c # cs) =
     (if is_digit c
      then int_digits (dadd (dmul n (Finite 10)) (Finite (of_nat (digit_val c)))) cs
      else Inr (n, c # cs))"

fun frac_digits :: "dbl \<Rightarrow> int \<Rightarrow> char list \<Rightarrow> fault + (dbl \<times> int \<times> char list)" where
  "frac_digits n scale [] = Inl ReadOutOfBounds"
| "frac_digits n scale (c # cs) =
     (if is_digit c
      then frac_digits (dadd (dmul n (Finite 10)) (Finite (of_nat (digit_val c)))) (scale - 1) cs
      else Inr (n, scale, c # cs))"

fun exp_digits :: "int \<Rightarrow> char list \<Rightarrow> fault + (int \<times> char list)" where
  "exp_digits subscale [] = Inl ReadOutOfBounds"
| "exp_digits subscale (c # cs) =
     (if is_digit c
      then (let s = subscale * 10 + int (digit_val c)
            in if 2 ^ 31 \<le> s then Inl IntOverflow else exp_digits s cs)
      else Inr (subscale, c # cs))"

text \<open>
  The scanning part of \<open>parse_number\<close>, block by block: the integer digits after the
  optional zero, the fraction, the exponent; then the whole, which returns the value
  \<open>n\<close> and the pointer.
\<close>

definition int_part :: "char list \<Rightarrow> fault + (dbl \<times> char list)" where
  "int_part p1 =
     bnd (peek p1) (\<lambda>c1.
     let p2 = (if c1 = CHR ''0'' then tl p1 else p1) in
     bnd (peek p2) (\<lambda>c2.
       if 49 \<le> (of_char c2 :: nat) \<and> (of_char c2 :: nat) \<le> 57
       then int_digits (Finite 0) p2 else Inr (Finite 0, p2)))"

definition frac_part :: "dbl \<Rightarrow> char list \<Rightarrow> fault + (dbl \<times> int \<times> char list)" where
  "frac_part n1 p3 =
     bnd (peek p3) (\<lambda>c3.
       if c3 = CHR ''.'' then frac_digits n1 0 (tl p3) else Inr (n1, 0, p3))"

definition exp_part :: "char list \<Rightarrow> fault + (int \<times> char list)" where
  "exp_part p4 =
     bnd (peek p4) (\<lambda>c4.
       if c4 = CHR ''e'' \<or> c4 = CHR ''E''
       then bnd (peek (tl p4)) (\<lambda>c5.
            let signsubscale = (if c5 = CHR ''+'' then 1 else if c5 = CHR ''-'' then - 1 else 1 :: int);
                p5 = (if c5 = CHR ''+'' \<or> c5 = CHR ''-'' then tl (tl p4) else tl p4)
            in bnd (exp_digits 0 p5) (\<lambda>(subscale, p6). Inr (subscale * signsubscale, p6)))
       else Inr (0, p4))"

definition number_scan :: "(int \<Rightarrow> dbl) \<Rightarrow> char list \<Rightarrow> fault + (dbl \<times> char list)" where
  "number_scan libm num =
     bnd (peek num) (\<lambda>c0.
     let sign = (if c0 = CHR ''-'' then - 1 else 1 :: int);
         p1 = (if c0 = CHR ''-'' then tl num else num)
     in
     bnd (int_part p1) (\<lambda>(n1, p3).
     bnd (frac_part n1 p3) (\<lambda>(n2, scale, p4).
     bnd (exp_part p4) (\<lambda>(e, p7).
       if scale + e < - (2 ^ 31) \<or> 2 ^ 31 \<le> scale + e then Inl IntOverflow
       else Inr (dmul (dmul (Finite (of_int sign)) n2) (c_pow10 libm (scale + e)), p7)))))"

definition parse_number :: "addr \<Rightarrow> char list \<Rightarrow> heap \<Rightarrow> fault + (char list option \<times> heap)" where
  "parse_number item num h =
     bnd (number_scan (libm_pow10 h) num) (\<lambda>(n, p).
     bnd (upd_node h item (\<lambda>m. m\<lparr>valuedouble := n\<rparr>)) (\<lambda>h1.
     bnd (to_int n) (\<lambda>i.
     bnd (upd_node h1 item (\<lambda>m. m\<lparr>valueint := i, type := cJSON_Number\<rparr>)) (\<lambda>h2.
       Inr (Some p, h2)))))"

section \<open>String codec\<close>

text \<open>
  \<open>parse_hex4\<close>: the pointer returned (null at the first character that is no hex digit)
  and the value left in \<open>*out\<close>.
\<close>

fun hex4_loop :: "nat \<Rightarrow> 32 word \<Rightarrow> char list \<Rightarrow> fault + (char list option \<times> 32 word)" where
  "hex4_loop 0 out p = Inr (Some p, out)"
| "hex4_loop (Suc k) out [] = Inl ReadOutOfBounds"
| "hex4_loop (Suc k) out (c # cs) =
     (if 48 \<le> (of_char c :: nat) \<and> (of_char c :: nat) \<le> 57
      then hex4_loop k (push_bit 4 out OR of_nat (of_char c - 48)) cs
      else if 65 \<le> (of_char c :: nat) \<and> (of_char c :: nat) \<le> 70
      then hex4_loop k (push_bit 4 out OR of_nat (of_char c - 65 + 10)) cs
      else if 97 \<le> (of_char c :: nat) \<and> (of_char c :: nat) \<le> 102
      then hex4_loop k (push_bit 4 out OR of_nat (of_char c - 97 + 10)) cs
      else Inr (None, push_bit 4 out))"

definition parse_hex4 :: "char list \<Rightarrow> fault + (char list option \<times> 32 word)" where
  "parse_hex4 str = hex4_loop 4 0 str"

text \<open>
  The first loop of \<open>parse_string\<close>, which measures the output: the count and the pointer
  where it stops. After a backslash the next byte is stepped over without being read.
\<close>

fun scan_len :: "nat \<Rightarrow> char list \<Rightarrow> fault + (nat \<times> char list)" where
  "scan_len len [] = Inl ReadOutOfBounds"
| "scan_len len (c # cs) =
     (if c = DQ \<or> c = NUL then Inr (len, c # cs)
      else if c = BS
           then (case cs of [] \<Rightarrow> Inl ReadOutOfBounds | e # es \<Rightarrow> scan_len (len + 1) es)
           else scan_len (len + 1) cs)"

text \<open>The bytes that the \<open>switch (len)\<close> of \<open>parse_string\<close> writes for a code point.\<close>

definition cont_byte :: "32 word \<Rightarrow> char" where
  "cont_byte uc = char_of (unat ((uc OR 0x80) AND 0xBF))"

definition utf8 :: "32 word \<Rightarrow> char list" where
  "utf8 uc =
     (if uc < 0x80 then [char_of (unat uc)]
      else if uc < 0x800 then [char_of (unat (drop_bit 6 uc OR 0xC0)), cont_byte uc]
      else if uc < 0x10000
           then [char_of (unat (drop_bit 12 uc OR 0xE0)), cont_byte (drop_bit 6 uc), cont_byte uc]
           else [char_of (unat (drop_bit 18 uc OR 0xF0)), cont_byte (drop_bit 12 uc),
                 cont_byte (drop_bit 6 uc), cont_byte uc])"

text \<open>
  Writing bytes at \<open>ptr2\<close> into the buffer of \<open>cap\<close> bytes of which \<open>out\<close> are written;
  \<open>None\<close> stands for the paths that free the buffer and return null.
\<close>

definition put :: "nat \<Rightarrow> char list \<Rightarrow> char list \<Rightarrow> char list \<Rightarrow>
    fault + (char list \<times> char list) option" where
  "put cap out bs p =
     (if length out + length bs \<le> cap then Inr (Some (out @ bs, p)) else Inl WriteOutOfBounds)"

text \<open>
  The \<open>switch (*ptr)\<close> after a backslash; \<open>p\<close> is the pointer at the escape character.
  The result is the output and the pointer at the \<open>break\<close>.
\<close>

definition escape :: "nat \<Rightarrow> char list \<Rightarrow> char list \<Rightarrow>
    fault + (char list \<times> char list) option" where
  "escape cap out p =
     bnd (peek p) (\<lambda>e.
       if e = CHR ''b'' then put cap out [CHR 0x08] p
       else if e = CHR ''f'' then put cap out [CHR 0x0C] p
       else if e = CHR ''n'' then put cap out [CHR 0x0A] p
       else if e = CHR ''r'' then put cap out [CHR 0x0D] p
       else if e = CHR ''t'' then put cap out [CHR 0x09] p
       else if e = CHR ''u'' then
         bnd (parse_hex4 (tl p)) (\<lambda>(q, uc).
           case q of
             None \<Rightarrow> Inr None
           | Some q1 \<Rightarrow>
               if 0xDC00 \<le> uc \<and> uc \<le> 0xDFFF then Inr None
               else if 0xD800 \<le> uc \<and> uc \<le> 0xDBFF then
                 bnd (peek q1) (\<lambda>a.
                   if a \<noteq> BS then Inr None
                   else bnd (peek (tl q1)) (\<lambda>b.
                     if b \<noteq> CHR ''u'' then Inr None
                     else bnd (parse_hex4 (tl (tl q1))) (\<lambda>(q2, uc2).
                       case q2 of
                         None \<Rightarrow> Inr None
                       | Some q3 \<Rightarrow>
                           put cap out
                             (utf8 (0x10000 + (push_bit 10 (uc AND 0x3FF) OR (uc2 AND 0x3FF))))
                             q3)))
               else put cap out (utf8 uc) q1)
       else put cap out [e] p)"

lemma hex4_loop_length:
  "hex4_loop k out p = Inr (Some q, w) \<Longrightarrow> length q \<le> length p"
  by (induction k out p rule: hex4_loop.induct) (auto split: if_splits)

lemma escape_length:
  "escape cap out p = Inr (Some (out', q)) \<Longrightarrow> length q \<le> length p"
  by (cases p)
     (auto simp: escape_def put_def peek_def parse_hex4_def bnd_def
           split: if_splits sum.splits option.splits list.splits
           dest!: hex4_loop_length)

text \<open>
  The second loop of \<open>parse_string\<close>, up to and including \<open>*ptr2 = '\0'\<close>: the bytes
  written and the pointer where the loop stops. After the \<open>switch\<close> the pointer is
  incremented; after a \<open>\uXXXX\<close> escape it already stands behind the hex digits.
\<close>

function decode :: "nat \<Rightarrow> char list \<Rightarrow> char list \<Rightarrow> fault + (char list \<times> char list) option" where
  "decode cap out [] = Inl ReadOutOfBounds"
| "decode cap out (c # cs) =
     (if c = DQ \<or> c = NUL
      then (if length out < cap then Inr (Some (out, c # cs)) else Inl WriteOutOfBounds)
      else if c \<noteq> BS
           then (if length out < cap then decode cap (out @ [c]) cs else Inl WriteOutOfBounds)
           else (case escape cap out cs of
                   Inl e \<Rightarrow> Inl e
                 | Inr None \<Rightarrow> Inr None
                 | Inr (Some (out', q)) \<Rightarrow>
                     (case q of [] \<Rightarrow> Inl ReadOutOfBounds | x # q' \<Rightarrow> decode cap out' q')))"
  by pat_completeness auto
termination
  by (relation "measure (\<lambda>(cap, out, p). length p)") (auto dest!: escape_length)

section \<open>Parser\<close>

text \<open>
  \<open>parse_string\<close>. The buffer \<open>out\<close> is live, and empty, from \<open>cJSON_malloc\<close> on; it
  receives its bytes when the decoding loop has ended.
\<close>

definition parse_string :: "addr \<Rightarrow> char list \<Rightarrow> heap \<Rightarrow> fault + (char list option \<times> heap)" where
  "parse_string item str h =
     bnd (peek str) (\<lambda>c0.
       if c0 \<noteq> DQ then Inr (None, h\<lparr>ep := Some str\<rparr>)
       else
         bnd (scan_len 0 (tl str)) (\<lambda>(len, p).
         bnd (peek p) (\<lambda>c1.
           if c1 = NUL then Inr (None, h\<lparr>ep := Some str\<rparr>)
           else
             (case cJSON_malloc h of
                (None, h1) \<Rightarrow> Inr (None, h1)
              | (Some out, h1) \<Rightarrow>
                  bnd (decode (len + 1) [] (tl str)) (\<lambda>r.
                    case r of
                      None \<Rightarrow>
                        bnd (free_str out (h1\<lparr>strs := (strs h1)(out \<mapsto> [])\<rparr>)) (\<lambda>h2.
                          Inr (None, h2))
                    | Some (bytes, p2) \<Rightarrow>
                        bnd (peek p2) (\<lambda>c2.
                        bnd (upd_node (h1\<lparr>strs := (strs h1)(out \<mapsto> bytes)\<rparr>) item
                               (\<lambda>n. n\<lparr>type := cJSON_String, valuestring := Some out\<rparr>)) (\<lambda>h2.
                          Inr (Some (if c2 = DQ then tl p2 else p2), h2))))))))"

text \<open>
  The recursive descent. The body of each function is given first, with the functions it
  calls as parameters (\<open>p_value\<close> for \<open>parse_value\<close>, and so on); the recursion is
  closed below, where every call and every loop iteration spends one unit of fuel.
  \<open>array_loop\<close> and \<open>object_loop\<close> are the \<open>while (*value == ',')\<close> loops with the
  two statements after them; \<open>parse_member\<close> is the key, colon and value of one member,
  which \<open>parse_object\<close> spells out twice, before and inside its loop.
\<close>

type_synonym presult = "fault + (char list option \<times> heap)"

definition parse_value_body ::
  "(addr \<Rightarrow> char list \<Rightarrow> heap \<Rightarrow> presult) \<Rightarrow> (addr \<Rightarrow> char list \<Rightarrow> heap \<Rightarrow> presult) \<Rightarrow>
   addr \<Rightarrow> char list option \<Rightarrow> heap \<Rightarrow> presult" where
  "parse_value_body p_array p_object item value h =
     (case value of
        None \<Rightarrow> Inr (None, h)
      | Some v \<Rightarrow>
     bnd (has_prefix v ''null'') (\<lambda>b1.
       if b1 then bnd (upd_node h item (\<lambda>n. n\<lparr>type := cJSON_NULL\<rparr>)) (\<lambda>h1.
                    Inr (Some (drop 4 v), h1))
       else
     bnd (has_prefix v ''false'') (\<lambda>b2.
       if b2 then bnd (upd_node h item (\<lambda>n. n\<lparr>type := cJSON_False\<rparr>)) (\<lambda>h1.
                    Inr (Some (drop 5 v), h1))
       else
     bnd (has_prefix v ''true'') (\<lambda>b3.
       if b3 then bnd (upd_node h item (\<lambda>n. n\<lparr>type := cJSON_True, valueint := 1\<rparr>)) (\<lambda>h1.
                    Inr (Some (drop 4 v), h1))
       else
     bnd (peek v) (\<lambda>c.
       if c = DQ then parse_string item v h
       else if c = CHR ''-'' \<or> is_digit c then parse_number item v h
       else if c = CHR ''['' then p_array item v h
       else if c = CHR ''{'' then p_object item v h
       else Inr (None, h\<lparr>ep := Some v\<rparr>))))))"

definition parse_array_body ::
  "(addr \<Rightarrow> char list option \<Rightarrow> heap \<Rightarrow> presult) \<Rightarrow> (addr \<Rightarrow> char list \<Rightarrow> heap \<Rightarrow> presult) \<Rightarrow>
   addr \<Rightarrow> char list \<Rightarrow> heap \<Rightarrow> presult" where
  "parse_array_body p_value loop item value h =
     bnd (peek value) (\<lambda>c.
       if c \<noteq> CHR ''['' then Inr (None, h\<lparr>ep := Some value\<rparr>)
       else
     bnd (upd_node h item (\<lambda>n. n\<lparr>type := cJSON_Array\<rparr>)) (\<lambda>h1.
     bnd (skip_ws (tl value)) (\<lambda>v1.
     bnd (peek v1) (\<lambda>c1.
       if c1 = CHR '']'' then Inr (Some (tl v1), h1)
       else
         (case cJSON_New_Item h1 of
            (ch, h2) \<Rightarrow>
              bnd (upd_node h2 item (\<lambda>n. n\<lparr>child := ch\<rparr>)) (\<lambda>h3.
                case ch of
                  None \<Rightarrow> Inr (None, h3)
                | Some chd \<Rightarrow>
                    bnd (skip_ws v1) (\<lambda>v2.
                    bnd (p_value chd (Some v2) h3) (\<lambda>(r, h4).
                    bnd (skip r) (\<lambda>v3.
                      case v3 of
                        None \<Rightarrow> Inr (None, h4)
                      | Some v4 \<Rightarrow> loop chd v4 h4)))))))))"

definition array_loop_body ::
  "(addr \<Rightarrow> char list option \<Rightarrow> heap \<Rightarrow> presult) \<Rightarrow> (addr \<Rightarrow> char list \<Rightarrow> heap \<Rightarrow> presult) \<Rightarrow>
   addr \<Rightarrow> char list \<Rightarrow> heap \<Rightarrow> presult" where
  "array_loop_body p_value loop chd value h =
     bnd (peek value) (\<lambda>c.
       if c = CHR '','' then
         (case cJSON_New_Item h of
            (None, h1) \<Rightarrow> Inr (None, h1)
          | (Some new_item, h1) \<Rightarrow>
              bnd (upd_node h1 chd (\<lambda>n. n\<lparr>nxt := Some new_item\<rparr>)) (\<lambda>h2.
              bnd (upd_node h2 new_item (\<lambda>n. n\<lparr>prev := Some chd\<rparr>)) (\<lambda>h3.
              bnd (skip_ws (tl value)) (\<lambda>v1.
              bnd (p_value new_item (Some v1) h3) (\<lambda>(r, h4).
              bnd (skip r) (\<lambda>v2.
                case v2 of
                  None \<Rightarrow> Inr (None, h4)
                | Some v3 \<Rightarrow> loop new_item v3 h4))))))
       else if c = CHR '']'' then Inr (Some (tl value), h)
       else Inr (None, h\<lparr>ep := Some value\<rparr>))"

definition parse_object_body ::
  "(addr \<Rightarrow> char list \<Rightarrow> heap \<Rightarrow> presult) \<Rightarrow> (addr \<Rightarrow> char list \<Rightarrow> heap \<Rightarrow> presult) \<Rightarrow>
   addr \<Rightarrow> char list \<Rightarrow> heap \<Rightarrow> presult" where
  "parse_object_body p_member loop item value h =
     bnd (peek value) (\<lambda>c.
       if c \<noteq> CHR ''{'' then Inr (None, h\<lparr>ep := Some value\<rparr>)
       else
     bnd (upd_node h item (\<lambda>n. n\<lparr>type := cJSON_Object\<rparr>)) (\<lambda>h1.
     bnd (skip_ws (tl value)) (\<lambda>v1.
     bnd (peek v1) (\<lambda>c1.
       if c1 = CHR ''}'' then Inr (Some (tl v1), h1)
       else
         (case cJSON_New_Item h1 of
            (ch, h2) \<Rightarrow>
              bnd (upd_node h2 item (\<lambda>n. n\<lparr>child := ch\<rparr>)) (\<lambda>h3.
                case ch of
                  None \<Rightarrow> Inr (None, h3)
                | Some chd \<Rightarrow>
                    bnd (p_member chd v1 h3) (\<lambda>(v3, h4).
                      case v3 of
                        None \<Rightarrow> Inr (None, h4)
                      | Some v4 \<Rightarrow> loop chd v4 h4)))))))"

definition parse_member_body ::
  "(addr \<Rightarrow> char list option \<Rightarrow> heap \<Rightarrow> presult) \<Rightarrow> addr \<Rightarrow> char list \<Rightarrow> heap \<Rightarrow> presult" where
  "parse_member_body p_value chd value h =
     bnd (skip_ws value) (\<lambda>v1.
     bnd (parse_string chd v1 h) (\<lambda>(r, h1).
     bnd (skip r) (\<lambda>v2.
       case v2 of
         None \<Rightarrow> Inr (None, h1)
       | Some v3 \<Rightarrow>
           bnd (upd_node h1 chd (\<lambda>n. n\<lparr>string := valuestring n\<rparr>)) (\<lambda>h2.
           bnd (upd_node h2 chd (\<lambda>n. n\<lparr>valuestring := None\<rparr>)) (\<lambda>h3.
           bnd (peek v3) (\<lambda>c.
             if c \<noteq> CHR '':'' then Inr (None, h3\<lparr>ep := Some v3\<rparr>)
             else
               bnd (skip_ws (tl v3)) (\<lambda>v4.
               bnd (p_value chd (Some v4) h3) (\<lambda>(r2, h4).
               bnd (skip r2) (\<lambda>v5. Inr (v5, h4))))))))))"

definition object_loop_body ::
  "(addr \<Rightarrow> char list \<Rightarrow> heap \<Rightarrow> presult) \<Rightarrow> (addr \<Rightarrow> char list \<Rightarrow> heap \<Rightarrow> presult) \<Rightarrow>
   addr \<Rightarrow> char list \<Rightarrow> heap \<Rightarrow> presult" where
  "object_loop_body p_member loop chd value h =
     bnd (peek value) (\<lambda>c.
       if c = CHR '','' then
         (case cJSON_New_Item h of
            (None, h1) \<Rightarrow> Inr (None, h1)
          | (Some new_item, h1) \<Rightarrow>
              bnd (upd_node h1 chd (\<lambda>n. n\<lparr>nxt := Some new_item\<rparr>)) (\<lambda>h2.
              bnd (upd_node h2 new_item (\<lambda>n. n\<lparr>prev := Some chd\<rparr>)) (\<lambda>h3.
              bnd (p_member new_item (tl value) h3) (\<lambda>(v2, h4).
                case v2 of
                  None \<Rightarrow> Inr (None, h4)
                | Some v3 \<Rightarrow> loop new_item v3 h4))))
       else if c = CHR ''}'' then Inr (Some (tl value), h)
       else Inr (None, h\<lparr>ep := Some value\<rparr>))"

fun parse_value :: "nat \<Rightarrow> addr \<Rightarrow> char list option \<Rightarrow> heap \<Rightarrow> presult"
  and parse_array :: "nat \<Rightarrow> addr \<Rightarrow> char list \<Rightarrow> heap \<Rightarrow> presult"
  and array_loop :: "nat \<Rightarrow> addr \<Rightarrow> char list \<Rightarrow> heap \<Rightarrow> presult"
  and parse_object :: "nat \<Rightarrow> addr \<Rightarrow> char list \<Rightarrow> heap \<Rightarrow> presult"
  and parse_member :: "nat \<Rightarrow> addr \<Rightarrow> char list \<Rightarrow> heap \<Rightarrow> presult"
  and object_loop :: "nat \<Rightarrow> addr \<Rightarrow> char list \<Rightarrow> heap \<Rightarrow> presult"
where
  "parse_value 0 = (\<lambda>item value h. Inl OutOfFuel)"
| "parse_value (Suc fuel) = parse_value_body (parse_array fuel) (parse_object fuel)"
| "parse_array 0 = (\<lambda>item value h. Inl OutOfFuel)"
| "parse_array (Suc fuel) = parse_array_body (parse_value fuel) (array_loop fuel)"
| "array_loop 0 = (\<lambda>chd value h. Inl OutOfFuel)"
| "array_loop (Suc fuel) = array_loop_body (parse_value fuel) (array_loop fuel)"
| "parse_object 0 = (\<lambda>item value h. Inl OutOfFuel)"
| "parse_object (Suc fuel) = parse_object_body (parse_member fuel) (object_loop fuel)"
| "parse_member 0 = (\<lambda>chd value h. Inl OutOfFuel)"
| "parse_member (Suc fuel) = parse_member_body (parse_value fuel)"
| "object_loop 0 = (\<lambda>chd value h. Inl OutOfFuel)"
| "object_loop (Suc fuel) = object_loop_body (parse_member fuel) (object_loop fuel)"

text \<open>
  \<open>cJSON_ParseWithLength\<close>; the fuel bounds the descent and the deletion separately.
  \<open>buffer_length\<close> is only compared with 0.
\<close>

definition cJSON_ParseWithLength ::
  "nat \<Rightarrow> char list option \<Rightarrow> nat \<Rightarrow> heap \<Rightarrow> fault + (addr option \<times> heap)" where
  "cJSON_ParseWithLength fuel value buffer_length h =
     (case value of
        None \<Rightarrow> Inr (None, h)
      | Some v \<Rightarrow>
          if buffer_length = 0 then Inr (None, h)
          else
            (case cJSON_New_Item h of
               (None, h1) \<Rightarrow> Inr (None, h1)
             | (Some c, h1) \<Rightarrow>
                 bnd (skip_ws v) (\<lambda>v1.
                 bnd (parse_value fuel c (Some v1) (h1\<lparr>ep := None\<rparr>)) (\<lambda>(e, h2).
                   case e of
                     None \<Rightarrow> bnd (cJSON_Delete fuel (Some c) h2) (\<lambda>h3. Inr (None, h3))
                   | Some e1 \<Rightarrow> Inr (Some c, h2)))))"

definition cJSON_Parse :: "nat \<Rightarrow> char list option \<Rightarrow> heap \<Rightarrow> fault + (addr option \<times> heap)" where
  "cJSON_Parse fuel value h =
     (case value of
        None \<Rightarrow> cJSON_ParseWithLength fuel None 0 h
      | Some v \<Rightarrow> bnd (strlen v) (\<lambda>n. cJSON_ParseWithLength fuel (Some v) n h))"

section \<open>Example stores\<close>

definition empty_heap :: heap where
  "empty_heap = \<lparr>nodes = Map.empty, strs = Map.empty, brk = 1, outcomes = [], freed = [],
                  ep = None, libm_pow10 = pow10_nearest\<rparr>"

text \<open>
  An object at address 1 whose only member, a null at address 2, was added by
  \<open>cJSON_AddItemToObjectCS\<close> with the caller's key at address 0.
\<close>

definition cs_heap :: heap where
  "cs_heap =
     \<lparr>nodes = [1 \<mapsto> zero_item\<lparr>type := cJSON_Object, child := Some 2\<rparr>,
               2 \<mapsto> zero_item\<lparr>type := cJSON_NULL OR cJSON_StringIsConst, string := Some 0\<rparr>],
      strs = [0 \<mapsto> ''key''], brk = 3, outcomes = [], freed = [], ep = None,
      libm_pow10 = pow10_nearest\<rparr>"

text \<open>
  An object at address 1 with three members at the addresses 2, 4 and 7: a null with the
  key \<open>a\<close> (buffer 3), the string \<open>x\<close> (buffer 5) with the key \<open>b\<close> (buffer 6), and a
  null with the key \<open>c\<close> (buffer 8).
\<close>

definition object3_heap :: heap where
  "object3_heap =
     \<lparr>nodes = [1 \<mapsto> zero_item\<lparr>type := cJSON_Object, child := Some 2\<rparr>,
               2 \<mapsto> zero_item\<lparr>type := cJSON_NULL, nxt := Some 4, string := Some 3\<rparr>,
               4 \<mapsto> zero_item\<lparr>type := cJSON_String, valuestring := Some 5, nxt := Some 7,
                               prev := Some 2, string := Some 6\<rparr>,
               7 \<mapsto> zero_item\<lparr>type := cJSON_NULL, prev := Some 4, string := Some 8\<rparr>],
      strs = [3 \<mapsto> ''a'', 5 \<mapsto> ''x'', 6 \<mapsto> ''b'', 8 \<mapsto> ''c''],
      brk = 9, outcomes = [], freed = [], ep = None, libm_pow10 = pow10_nearest\<rparr>"

text \<open>The parts of a result that the properties below look at.\<close>

definition freed_of :: "fault + heap \<Rightarrow> addr list option" where
  "freed_of r = (case r of Inl e \<Rightarrow> None | Inr h \<Rightarrow> Some (freed h))"

definition live_nodes_of :: "fault + heap \<Rightarrow> addr list \<Rightarrow> bool list option" where
  "live_nodes_of r as =
     (case r of Inl e \<Rightarrow> None | Inr h \<Rightarrow> Some (map (\<lambda>a. nodes h a \<noteq> None) as))"

definition live_strs_of :: "fault + heap \<Rightarrow> addr list \<Rightarrow> bool list option" where
  "live_strs_of r as =
     (case r of Inl e \<Rightarrow> None | Inr h \<Rightarrow> Some (map (\<lambda>a. strs h a \<noteq> None) as))"

section \<open>Views of a parse result and example texts\<close>

definition returns_null :: "fault + (addr option \<times> heap) \<Rightarrow> bool" where
  "returns_null r = (case r of Inr (None, h) \<Rightarrow> True | _ \<Rightarrow> False)"

definition returns_tree :: "fault + (addr option \<times> heap) \<Rightarrow> bool" where
  "returns_tree r = (case r of Inr (Some c, h) \<Rightarrow> nodes h c \<noteq> None | _ \<Rightarrow> False)"

text \<open>The bytes of \<open>valuestring\<close> when the result is a string node.\<close>

definition parsed_text :: "fault + (addr option \<times> heap) \<Rightarrow> char list option" where
  "parsed_text r =
     (case r of
        Inr (Some c, h) \<Rightarrow>
          (case nodes h c of
             Some n \<Rightarrow>
               (if type n AND 0xFF = cJSON_String
                then (case valuestring n of Some s \<Rightarrow> strs h s | None \<Rightarrow> None) else None)
           | None \<Rightarrow> None)
      | _ \<Rightarrow> None)"

text \<open>The integer accessor: \<open>valueint\<close> when the result is a number node.\<close>

definition parsed_int :: "fault + (addr option \<times> heap) \<Rightarrow> int option" where
  "parsed_int r =
     (case r of
        Inr (Some c, h) \<Rightarrow>
          (case nodes h c of
             Some n \<Rightarrow> (if type n AND 0xFF = cJSON_Number then Some (sint (valueint n)) else None)
           | None \<Rightarrow> None)
      | _ \<Rightarrow> None)"

text \<open>
  Three JSON texts, each a string literal with its quotes and the terminating NUL: the
  escapes uD83D uDE00 (a surrogate pair), the escape uDC00 (a lone low surrogate), and
  the escapes uD83D u0041 (a high surrogate followed by the escape of the letter A).
\<close>

definition text_pair :: "char list" where
  "text_pair = [DQ, BS] @ ''ud83d'' @ [BS] @ ''ude00'' @ [DQ, NUL]"

definition text_lone_low :: "char list" where
  "text_lone_low = [DQ, BS] @ ''udc00'' @ [DQ, NUL]"

definition text_high_then_bmp :: "char list" where
  "text_high_then_bmp = [DQ, BS] @ ''ud83d'' @ [BS] @ ''u0041'' @ [DQ, NUL]"

text \<open>An array nested \<open>k + 1\<close> levels deep, followed by \<open>rest\<close>.\<close>

fun nested :: "nat \<Rightarrow> char list \<Rightarrow> char list" where
  "nested 0 rest = CHR ''['' # CHR '']'' # rest"
| "nested (Suc k) rest = CHR ''['' # nested k (CHR '']'' # rest)"





text \<open>The store of a result that carries one.\<close>

definition store_of :: "fault + ('a \<times> heap) \<Rightarrow> fault + heap" where
  "store_of r = (case r of Inl e \<Rightarrow> Inl e | Inr (x, h) \<Rightarrow> Inr h)"

text \<open>
  An object whose member \<open>k\<close> is an array that ends after a comma: the text
  \<open>{"k":["a",]}\<close>, which is no JSON text.
\<close>

definition text_cut_short :: "char list" where
  "text_cut_short = ''{'' @ [DQ] @ ''k'' @ [DQ] @ '':['' @ [DQ] @ ''a'' @ [DQ] @ '',]}'' @ [NUL]"

section \<open>Footprint of the parser\<close>

text \<open>
  A store is in order when nothing is live at or above the next address of \<open>malloc\<close>.
\<close>

definition heap_ok :: "heap \<Rightarrow> bool" where
  "heap_ok h = (\<forall>a. brk h \<le> a \<longrightarrow> nodes h a = None \<and> strs h a = None)"

text \<open>
  The fuel that \<open>cJSON_Delete\<close> needs for a chain: one unit for the node, and then what
  the longer of its two walks needs, through \<open>child\<close> or through \<open>next\<close>.
\<close>

fun need :: "shape list \<Rightarrow> nat" where
  "need [] = 0"
| "need (Sh a ks # rest) = Suc (max (need ks) (need rest))"

definition plain :: "cJSON \<Rightarrow> bool" where
  "plain n = (type n AND cJSON_IsReference = 0)"

definition vstr :: "cJSON \<Rightarrow> addr list" where
  "vstr n = (case valuestring n of Some s \<Rightarrow> [s] | None \<Rightarrow> [])"

text \<open>
  \<open>ext h h' M A X\<close>: the store \<open>h'\<close> extends \<open>h\<close> by the nodes \<open>A\<close> and the buffers
  \<open>X\<close>, all of them allocated since \<open>h\<close>; of the nodes of \<open>h\<close> only those in \<open>M\<close> may
  have changed, and no buffer of \<open>h\<close> has.
\<close>

definition ext :: "heap \<Rightarrow> heap \<Rightarrow> addr set \<Rightarrow> addr list \<Rightarrow> addr list \<Rightarrow> bool" where
  "ext h h' M A X =
     (heap_ok h' \<and> brk h \<le> brk h' \<and>
      distinct A \<and> (\<forall>a\<in>set A. brk h \<le> a \<and> a < brk h') \<and>
      distinct X \<and> (\<forall>x\<in>set X. brk h \<le> x \<and> x < brk h' \<and> strs h' x \<noteq> None) \<and>
      (\<forall>a. a \<notin> M \<longrightarrow> a \<notin> set A \<longrightarrow> nodes h' a = nodes h a) \<and>
      (\<forall>x. x \<notin> set X \<longrightarrow> strs h' x = strs h x))"

text \<open>
  What a call that fills the node \<open>item\<close>, which was \<open>n\<close> before, leaves behind,
  whether it succeeds or fails: the node keeps its links and its key, and owns a chain
  \<open>ks\<close> of new nodes that \<open>cJSON_Delete\<close> can walk with the fuel \<open>d\<close>; the new
  buffers are its text and the buffers of \<open>ks\<close>. \<open>filled_member\<close> is the same for a
  call that also reads the key of the node, which is then one of the new buffers.
\<close>

definition filled :: "nat \<Rightarrow> heap \<Rightarrow> addr \<Rightarrow> cJSON \<Rightarrow> heap \<Rightarrow> bool" where
  "filled d h item n h' =
     (\<exists>n' ks. nodes h' item = Some n' \<and> nxt n' = nxt n \<and> string n' = string n \<and> plain n' \<and>
               owns h' (child n') ks \<and> need ks \<le> d \<and>
               ext h h' {item} (addrs_list ks) (vstr n' @ strs_of h' (addrs_list ks)))"

definition filled_member :: "nat \<Rightarrow> heap \<Rightarrow> addr \<Rightarrow> cJSON \<Rightarrow> heap \<Rightarrow> bool" where
  "filled_member d h item n h' =
     (\<exists>n' ks. nodes h' item = Some n' \<and> nxt n' = nxt n \<and> plain n' \<and>
               owns h' (child n') ks \<and> need ks \<le> d \<and>
               ext h h' {item} (addrs_list ks) (node_strs n' @ strs_of h' (addrs_list ks)))"

text \<open>
  What a loop that appends to the chain after its last node \<open>chd\<close>, which was \<open>m\<close>
  before, leaves behind: only the \<open>next\<close> link of \<open>chd\<close> has changed, and it owns the
  chain of the new nodes.
\<close>

definition appended :: "nat \<Rightarrow> heap \<Rightarrow> addr \<Rightarrow> cJSON \<Rightarrow> heap \<Rightarrow> bool" where
  "appended d h chd m h' =
     (\<exists>p rest. nodes h' chd = Some (m\<lparr>nxt := p\<rparr>) \<and> owns h' p rest \<and> need rest \<le> d \<and>
                ext h h' {chd} (addrs_list rest) (strs_of h' (addrs_list rest)))"

text \<open>
  The three contracts of the functions of the descent: every call that returns, with a
  pointer or with null, on a blank node of a store in order, leaves the node filled.
\<close>

definition item_spec :: "nat \<Rightarrow> (addr \<Rightarrow> 'v \<Rightarrow> heap \<Rightarrow> presult) \<Rightarrow> bool" where
  "item_spec d pv =
     (\<forall>item v h r h' n.
        heap_ok h \<longrightarrow> nodes h item = Some n \<longrightarrow> child n = None \<longrightarrow> valuestring n = None \<longrightarrow>
        plain n \<longrightarrow> pv item v h = Inr (r, h') \<longrightarrow> filled d h item n h')"

definition member_spec :: "nat \<Rightarrow> (addr \<Rightarrow> 'v \<Rightarrow> heap \<Rightarrow> presult) \<Rightarrow> bool" where
  "member_spec d pm =
     (\<forall>item v h r h' n.
        heap_ok h \<longrightarrow> nodes h item = Some n \<longrightarrow> child n = None \<longrightarrow> valuestring n = None \<longrightarrow>
        string n = None \<longrightarrow> plain n \<longrightarrow> pm item v h = Inr (r, h') \<longrightarrow> filled_member d h item n h')"

definition loop_spec :: "nat \<Rightarrow> (addr \<Rightarrow> 'v \<Rightarrow> heap \<Rightarrow> presult) \<Rightarrow> bool" where
  "loop_spec d loop =
     (\<forall>chd v h r h' m.
        heap_ok h \<longrightarrow> nodes h chd = Some m \<longrightarrow> nxt m = None \<longrightarrow>
        loop chd v h = Inr (r, h') \<longrightarrow> appended d h chd m h')"

text \<open>
  The part of \<open>cJSON_ParseWithLength\<close> up to its call of \<open>parse_value\<close>, for a text that
  is not null and a length that is not 0.
\<close>

definition parse_root :: "nat \<Rightarrow> char list \<Rightarrow> heap \<Rightarrow> presult" where
  "parse_root fuel v h =
     (case cJSON_New_Item h of
        (None, h1) \<Rightarrow> Inr (None, h1)
      | (Some c, h1) \<Rightarrow>
          bnd (skip_ws v) (\<lambda>v1. parse_value fuel c (Some v1) (h1\<lparr>ep := None\<rparr>)))"

section \<open>Verified properties\<close>

subsection \<open>Evaluation rules\<close>

lemma bnd_Inr [simp]: "bnd (Inr x) f = f x"
  by (simp add: bnd_def)

lemma bnd_Inl [simp]: "bnd (Inl e) f = Inl e"
  by (simp add: bnd_def)

lemma cJSON_Delete_unfold:
  "cJSON_Delete fuel (Some c) h =
     (if fuel = 0 then Inl OutOfFuel
      else bnd (rd_node h c) (\<lambda>n.
           bnd (if type n AND cJSON_IsReference = 0 \<and> child n \<noteq> None
                then cJSON_Delete (fuel - 1) (child n) h else Inr h) (\<lambda>h1.
           bnd (rd_node h1 c) (\<lambda>n1.
           bnd (case valuestring n1 of
                  Some s \<Rightarrow> if type n1 AND cJSON_IsReference = 0 then free_str s h1 else Inr h1
                | None \<Rightarrow> Inr h1) (\<lambda>h2.
           bnd (case string n1 of Some k \<Rightarrow> free_str k h2 | None \<Rightarrow> Inr h2) (\<lambda>h3.
           bnd (free_node c h3) (\<lambda>h4.
             cJSON_Delete (fuel - 1) (nxt n) h4)))))))"
  by (cases fuel; simp cong: if_cong option.case_cong)

lemma last_sibling_unfold:
  "last_sibling fuel h c =
     (if fuel = 0 then Inl OutOfFuel
      else bnd (rd_node h c) (\<lambda>n.
             case nxt n of None \<Rightarrow> Inr c | Some d \<Rightarrow> last_sibling (fuel - 1) h d))"
  by (cases fuel; simp cong: if_cong option.case_cong)

lemmas tree_evals =
  rd_node_def upd_node_def free_node_def free_str_def zero_item_def
  cJSON_malloc_def cJSON_New_Item_def create_item_def cJSON_CreateObject_def
  cJSON_CreateNull_def cJSON_CreateArray_def cJSON_CreateString_def cJSON_strdup_def
  cJSON_AddItemToArray_def cJSON_AddItemToObject_def
  cJSON_AddItemToObjectCS_def cJSON_NULL_def cJSON_Object_def cJSON_Array_def
  cJSON_String_def cJSON_StringIsConst_def cJSON_IsReference_def

subsection \<open>The example stores are what the creation functions build\<close>

lemma cs_heap_built:
  "(case cJSON_CreateObject (empty_heap\<lparr>strs := [0 \<mapsto> ''key'']\<rparr>) of
      (ob, h1) \<Rightarrow>
        (case cJSON_CreateNull h1 of
           (it, h2) \<Rightarrow> (ob, it, cJSON_AddItemToObjectCS 5 (the ob) (Some 0) (the it) h2)))
   = (Some 1, Some 2, Inr cs_heap)"
  by (auto simp: tree_evals empty_heap_def cs_heap_def last_sibling_unfold fun_eq_iff)

lemma object3_heap_built:
  "(case cJSON_CreateObject empty_heap of
      (ob, h1) \<Rightarrow>
        (case cJSON_CreateNull h1 of
           (x, h2) \<Rightarrow>
             bnd (cJSON_AddItemToObject 5 (the ob) (Some ''a'') (the x) h2) (\<lambda>h3.
               case cJSON_CreateString (Some ''x'') h3 of
                 (y, h4) \<Rightarrow>
                   bnd (cJSON_AddItemToObject 5 (the ob) (Some ''b'') (the y) h4) (\<lambda>h5.
                     case cJSON_CreateNull h5 of
                       (z, h6) \<Rightarrow> cJSON_AddItemToObject 5 (the ob) (Some ''c'') (the z) h6))))
   = Inr object3_heap"
  by (auto simp: tree_evals empty_heap_def object3_heap_def last_sibling_unfold fun_eq_iff)

theorem delete_frees_const_key:
  "type (the (nodes cs_heap 2)) AND cJSON_StringIsConst \<noteq> 0 \<and>
   string (the (nodes cs_heap 2)) = Some 0 \<and>
   freed_of (cJSON_Delete 2 (Some 1) cs_heap) = Some [1, 2, 0]"
  by (simp add: tree_evals cs_heap_def cJSON_Delete_unfold freed_of_def)

subsection \<open>Deletion\<close>

lemma addrs_list_Nil [simp]: "addrs_list ss = [] \<longleftrightarrow> ss = []"
proof (cases ss)
  case Nil
  then show ?thesis by simp
next
  case (Cons s rest)
  then show ?thesis by (cases s) simp
qed

lemma owns_frame:
  "(\<And>a. a \<in> set (addrs_list ss) \<Longrightarrow> nodes h' a = nodes h a) \<Longrightarrow>
   owns h' p ss = owns h p ss"
proof (induction h p ss arbitrary: rule: owns.induct)
  case (1 h ss)
  then show ?case by simp
next
  case (2 h a)
  then show ?case by simp
next
  case (3 h a b ks ss)
  show ?case
  proof (cases "a = b")
    case False
    then show ?thesis by simp
  next
    case True
    have eq: "nodes h' a = nodes h a" using 3(3)[of a] True by simp
    show ?thesis
    proof (cases "nodes h a")
      case None
      then show ?thesis using eq by simp
    next
      case (Some n)
      have k: "owns h' (owned_child n) ks = owns h (owned_child n) ks"
        using 3(1) Some 3(3) by simp
      have r: "owns h' (nxt n) ss = owns h (nxt n) ss"
        using 3(2) Some 3(3) by simp
      show ?thesis using eq Some k r True by simp
    qed
  qed
qed

lemma strs_of_Nil [simp]: "strs_of h [] = []"
  by (simp add: strs_of_def)

lemma strs_of_Cons:
  "strs_of h (a # as) = (case nodes h a of Some n \<Rightarrow> node_strs n | None \<Rightarrow> []) @ strs_of h as"
  by (simp add: strs_of_def)

lemma strs_of_append: "strs_of h (as @ bs) = strs_of h as @ strs_of h bs"
  by (simp add: strs_of_def)

lemma strs_of_frame:
  "(\<And>a. a \<in> set as \<Longrightarrow> nodes h' a = nodes h a) \<Longrightarrow> strs_of h' as = strs_of h as"
  by (induction as) (simp_all add: strs_of_Cons)

text \<open>Freeing the buffers of one node, when they are live and distinct.\<close>

lemma free_node_strs:
  assumes "distinct (node_strs n)" and "\<forall>x\<in>set (node_strs n). strs h x \<noteq> None"
  shows "\<exists>h2 h3.
           (case valuestring n of
              Some s \<Rightarrow> if type n AND cJSON_IsReference = 0 then free_str s h else Inr h
            | None \<Rightarrow> Inr h) = Inr h2 \<and>
           (case string n of Some k \<Rightarrow> free_str k h2 | None \<Rightarrow> Inr h2) = Inr h3 \<and>
           nodes h3 = nodes h \<and>
           (\<forall>x. strs h3 x = (if x \<in> set (node_strs n) then None else strs h x))"
  using assms
  by (cases "valuestring n"; cases "string n"; cases "type n AND cJSON_IsReference = 0")
     (auto simp: node_strs_def free_str_def)

text \<open>
  Deleting a pointer that owns the chain \<open>ss\<close>, whose buffers are live and distinct,
  returns, given fuel for every node; it frees the nodes of \<open>ss\<close> and their buffers, and
  no other node and no other buffer.
\<close>

lemma delete_owned:
  "owns h p ss \<Longrightarrow> distinct (addrs_list ss) \<Longrightarrow> distinct (strs_of h (addrs_list ss)) \<Longrightarrow>
   \<forall>x\<in>set (strs_of h (addrs_list ss)). strs h x \<noteq> None \<Longrightarrow> length (addrs_list ss) \<le> fuel \<Longrightarrow>
   \<exists>h'. cJSON_Delete fuel p h = Inr h' \<and>
        (\<forall>a. nodes h' a = (if a \<in> set (addrs_list ss) then None else nodes h a)) \<and>
        (\<forall>x. strs h' x = (if x \<in> set (strs_of h (addrs_list ss)) then None else strs h x))"
proof (induction fuel arbitrary: p h ss)
  case 0
  then have "ss = []" by simp
  with 0 have "p = None" by (cases p) simp_all
  then show ?case using \<open>ss = []\<close> by simp
next
  case (Suc fuel)
  show ?case
  proof (cases p)
    case None
    with Suc.prems have "ss = []" by simp
    then show ?thesis using None by simp
  next
    case (Some c)
    with Suc.prems obtain b ks rest where ss: "ss = Sh b ks # rest"
      by (cases ss) (auto intro: shape.exhaust)
    with Suc.prems Some obtain n where bc: "b = c" and n: "nodes h c = Some n"
      and ok: "owns h (owned_child n) ks" and orest: "owns h (nxt n) rest"
      by (auto split: option.splits)
    let ?A = "addrs_list ks" and ?B = "addrs_list rest"
    from Suc.prems ss have dk: "distinct ?A" and dr: "distinct ?B"
      and cnk: "b \<notin> set ?A" and cnr: "b \<notin> set ?B"
      and disj: "set ?A \<inter> set ?B = {}"
      and lk: "length ?A \<le> fuel" and lr: "length ?B \<le> fuel"
      by auto
    have sall: "strs_of h (addrs_list ss) = node_strs n @ strs_of h ?A @ strs_of h ?B"
      by (simp add: ss bc strs_of_Cons strs_of_append n)
    from Suc.prems(3) have dn: "distinct (node_strs n)" and dsk: "distinct (strs_of h ?A)"
      and dsr: "distinct (strs_of h ?B)"
      and nk: "set (node_strs n) \<inter> set (strs_of h ?A) = {}"
      and nr: "set (node_strs n) \<inter> set (strs_of h ?B) = {}"
      and kr: "set (strs_of h ?A) \<inter> set (strs_of h ?B) = {}"
      unfolding sall by auto
    from Suc.prems(4) have ln: "\<forall>x\<in>set (node_strs n). strs h x \<noteq> None"
      and lsk: "\<forall>x\<in>set (strs_of h ?A). strs h x \<noteq> None"
      and lsr: "\<forall>x\<in>set (strs_of h ?B). strs h x \<noteq> None"
      unfolding sall by auto
    have "\<exists>h1. (if type n AND cJSON_IsReference = 0 \<and> child n \<noteq> None
                then cJSON_Delete fuel (child n) h else Inr h) = Inr h1 \<and>
               (\<forall>a. nodes h1 a = (if a \<in> set ?A then None else nodes h a)) \<and>
               (\<forall>x. strs h1 x = (if x \<in> set (strs_of h ?A) then None else strs h x))"
    proof (cases "type n AND cJSON_IsReference = 0 \<and> child n \<noteq> None")
      case True
      then have "owned_child n = child n" by (simp add: owned_child_def)
      with ok Suc.IH[of h "child n" ks] dk dsk lsk lk True show ?thesis by simp
    next
      case False
      then have "owned_child n = None" by (auto simp: owned_child_def)
      with ok have "ks = []" by simp
      with False show ?thesis by simp
    qed
    then obtain h1 where h1: "(if type n AND cJSON_IsReference = 0 \<and> child n \<noteq> None
                                then cJSON_Delete fuel (child n) h else Inr h) = Inr h1"
      and n1: "\<And>a. nodes h1 a = (if a \<in> set ?A then None else nodes h a)"
      and s1: "\<And>x. strs h1 x = (if x \<in> set (strs_of h ?A) then None else strs h x)"
      by blast
    have c1: "nodes h1 c = Some n" using n1[of c] cnk bc n by simp
    have ln1: "\<forall>x\<in>set (node_strs n). strs h1 x \<noteq> None"
      using ln nk s1 by auto
    from free_node_strs[OF dn ln1] obtain h2 h3 where
      e2: "(case valuestring n of
              Some s \<Rightarrow> if type n AND cJSON_IsReference = 0 then free_str s h1 else Inr h1
            | None \<Rightarrow> Inr h1) = Inr h2"
      and e3: "(case string n of Some k \<Rightarrow> free_str k h2 | None \<Rightarrow> Inr h2) = Inr h3"
      and n3: "nodes h3 = nodes h1"
      and s3: "\<And>x. strs h3 x = (if x \<in> set (node_strs n) then None else strs h1 x)"
      by blast
    define h4 where "h4 = h3\<lparr>nodes := (nodes h3)(c := None), freed := c # freed h3\<rparr>"
    have e4: "free_node c h3 = Inr h4"
      using c1 n3 by (simp add: free_node_def h4_def)
    have n4: "\<And>a. nodes h4 a = (if a = c \<or> a \<in> set ?A then None else nodes h a)"
      using n3 n1 by (simp add: h4_def)
    have s4: "\<And>x. strs h4 x =
                (if x \<in> set (node_strs n) \<or> x \<in> set (strs_of h ?A) then None else strs h x)"
      using s3 s1 by (simp add: h4_def)
    have agree: "\<And>a. a \<in> set ?B \<Longrightarrow> nodes h4 a = nodes h a"
      using n4 disj cnr bc by auto
    have "owns h4 (nxt n) rest = owns h (nxt n) rest"
      by (rule owns_frame) (rule agree)
    with orest have o4: "owns h4 (nxt n) rest" by simp
    have sf: "strs_of h4 ?B = strs_of h ?B"
      by (rule strs_of_frame) (rule agree)
    have d4: "distinct (strs_of h4 ?B)" using dsr sf by simp
    have l4: "\<forall>x\<in>set (strs_of h4 ?B). strs h4 x \<noteq> None"
      using lsr nr kr s4 sf by auto
    from Suc.IH[OF o4 dr d4 l4 lr] obtain h' where
      h': "cJSON_Delete fuel (nxt n) h4 = Inr h'"
      and n': "\<And>a. nodes h' a = (if a \<in> set ?B then None else nodes h4 a)"
      and s': "\<And>x. strs h' x = (if x \<in> set (strs_of h4 ?B) then None else strs h4 x)"
      by blast
    have "cJSON_Delete (Suc fuel) p h = Inr h'"
      using Some n h1 c1 e2 e3 e4 h' by (simp add: rd_node_def)
    moreover have "\<forall>a. nodes h' a = (if a \<in> set (addrs_list ss) then None else nodes h a)"
      using n' n4 ss bc by auto
    moreover have "\<forall>x. strs h' x =
                     (if x \<in> set (strs_of h (addrs_list ss)) then None else strs h x)"
      using s' s4 sf unfolding sall by auto
    ultimately show ?thesis by blast
  qed
qed

text \<open>
  Claim C6. For a node \<open>c\<close> of a sibling chain, with \<open>s\<close> the shape of its own subtree and
  \<open>rest\<close> the shapes of the siblings after it, whose buffers are live, owned and distinct,
  \<open>cJSON_Delete\<close> on \<open>c\<close> returns and releases, in that one call, every node of \<open>s\<close>
  and every node of \<open>rest\<close> with their keys and texts, and no other node or buffer.
\<close>

theorem delete_cascades_to_following_siblings:
  assumes "owns h (Some c) (s # rest)"
    and "distinct (addrs_list (s # rest))"
    and "distinct (strs_of h (addrs_list (s # rest)))"
    and "\<forall>x\<in>set (strs_of h (addrs_list (s # rest))). strs h x \<noteq> None"
    and "keys_owned h (addrs_list (s # rest))"
    and "length (addrs_list (s # rest)) \<le> fuel"
  shows "\<exists>h'. cJSON_Delete fuel (Some c) h = Inr h' \<and>
           (\<forall>a. nodes h' a =
                  (if a \<in> set (addrs s) \<union> set (addrs_list rest) then None else nodes h a)) \<and>
           (\<forall>x. strs h' x =
                  (if x \<in> set (strs_of h (addrs s)) \<union> set (strs_of h (addrs_list rest))
                   then None else strs h x))"
  using delete_owned[OF assms(1) assms(2) assms(3) assms(4) assms(6)]
  by (simp add: strs_of_append)

lemmas footprint_evals =
  strs_of_def node_strs_def keys_owned_def owned_child_def zero_item_def
  cJSON_NULL_def cJSON_String_def cJSON_Object_def cJSON_Array_def
  cJSON_IsReference_def cJSON_StringIsConst_def

text \<open>
  Deleting the first member (address 2) of the three-member object of \<open>object3_heap\<close>
  frees all three members with their keys and the text of the second, and leaves the
  object node itself.
\<close>

theorem delete_cascades_to_following_siblings_witness:
  "owns object3_heap (Some 2) [Sh 2 [], Sh 4 [], Sh 7 []] \<and>
   distinct (addrs_list [Sh 2 [], Sh 4 [], Sh 7 []]) \<and>
   strs_of object3_heap (addrs_list [Sh 2 [], Sh 4 [], Sh 7 []]) = [3, 5, 6, 8] \<and>
   keys_owned object3_heap (addrs_list [Sh 2 [], Sh 4 [], Sh 7 []]) \<and>
   live_nodes_of (cJSON_Delete 3 (Some 2) object3_heap) [1, 2, 4, 7] =
     Some [True, False, False, False] \<and>
   live_strs_of (cJSON_Delete 3 (Some 2) object3_heap) [3, 5, 6, 8] =
     Some [False, False, False, False]"
proof -
  let ?ss = "[Sh 4 [], Sh 7 []]"
  have o: "owns object3_heap (Some 2) (Sh 2 [] # ?ss)"
    by (simp add: object3_heap_def footprint_evals)
  have d: "distinct (addrs_list (Sh 2 [] # ?ss))" by simp
  have st: "strs_of object3_heap (addrs_list (Sh 2 [] # ?ss)) = [3, 5, 6, 8]"
    by (simp add: object3_heap_def footprint_evals)
  have ds: "distinct (strs_of object3_heap (addrs_list (Sh 2 [] # ?ss)))"
    unfolding st by simp
  have lv: "\<forall>x\<in>set (strs_of object3_heap (addrs_list (Sh 2 [] # ?ss))). strs object3_heap x \<noteq> None"
    unfolding st by (simp add: object3_heap_def)
  have ko: "keys_owned object3_heap (addrs_list (Sh 2 [] # ?ss))"
    by (simp add: object3_heap_def footprint_evals)
  have l: "length (addrs_list (Sh 2 [] # ?ss)) \<le> 3" by simp
  from delete_cascades_to_following_siblings[OF o d ds lv ko l] obtain h' where
    r: "cJSON_Delete 3 (Some 2) object3_heap = Inr h'"
    and n: "\<And>a. nodes h' a =
             (if a \<in> set (addrs (Sh 2 [])) \<union> set (addrs_list ?ss)
              then None else nodes object3_heap a)"
    and s: "\<And>x. strs h' x =
             (if x \<in> set (strs_of object3_heap (addrs (Sh 2 []))) \<union>
                     set (strs_of object3_heap (addrs_list ?ss))
              then None else strs object3_heap x)"
    by blast
  have s2: "set (strs_of object3_heap (addrs (Sh 2 []))) \<union>
            set (strs_of object3_heap (addrs_list ?ss)) = {3, 5, 6, 8}"
    by (simp add: object3_heap_def footprint_evals) auto
  have "live_nodes_of (cJSON_Delete 3 (Some 2) object3_heap) [1, 2, 4, 7] =
          Some [True, False, False, False]"
    unfolding r live_nodes_of_def by (simp add: n object3_heap_def)
  moreover have "live_strs_of (cJSON_Delete 3 (Some 2) object3_heap) [3, 5, 6, 8] =
          Some [False, False, False, False]"
    unfolding r live_strs_of_def by (simp add: s[unfolded s2])
  ultimately show ?thesis using o d st ko by simp
qed

subsection \<open>Evaluation rules of the parser\<close>

lemma hex4_loop_unfold:
  "hex4_loop k out p =
     (if k = 0 then Inr (Some p, out)
      else (case p of
              [] \<Rightarrow> Inl ReadOutOfBounds
            | c # cs \<Rightarrow>
                if 48 \<le> (of_char c :: nat) \<and> (of_char c :: nat) \<le> 57
                then hex4_loop (k - 1) (push_bit 4 out OR of_nat (of_char c - 48)) cs
                else if 65 \<le> (of_char c :: nat) \<and> (of_char c :: nat) \<le> 70
                then hex4_loop (k - 1) (push_bit 4 out OR of_nat (of_char c - 65 + 10)) cs
                else if 97 \<le> (of_char c :: nat) \<and> (of_char c :: nat) \<le> 102
                then hex4_loop (k - 1) (push_bit 4 out OR of_nat (of_char c - 97 + 10)) cs
                else Inr (None, push_bit 4 out)))"
  by (cases k; cases p; simp cong: if_cong)

lemma parse_fuel_numeral:
  "parse_value (numeral k) =
     parse_value_body (parse_array (pred_numeral k)) (parse_object (pred_numeral k))"
  "parse_array (numeral k) =
     parse_array_body (parse_value (pred_numeral k)) (array_loop (pred_numeral k))"
  "array_loop (numeral k) =
     array_loop_body (parse_value (pred_numeral k)) (array_loop (pred_numeral k))"
  "parse_object (numeral k) =
     parse_object_body (parse_member (pred_numeral k)) (object_loop (pred_numeral k))"
  "parse_member (numeral k) = parse_member_body (parse_value (pred_numeral k))"
  "object_loop (numeral k) =
     object_loop_body (parse_member (pred_numeral k)) (object_loop (pred_numeral k))"
  by (simp_all add: numeral_eq_Suc)

lemmas parse_evals =
  hex4_loop_unfold parse_fuel_numeral
  cJSON_Parse_def cJSON_ParseWithLength_def parse_value_body_def parse_array_body_def
  array_loop_body_def parse_object_body_def parse_member_body_def object_loop_body_def
  parse_string_def parse_number_def peek_def advance_def skip_def escape_def put_def
  parse_hex4_def utf8_def cont_byte_def DQ_def BS_def NUL_def is_digit_def digit_val_def
  cJSON_malloc_def cJSON_New_Item_def upd_node_def rd_node_def free_str_def free_node_def
  zero_item_def empty_heap_def
  cJSON_NULL_def cJSON_False_def cJSON_True_def cJSON_Number_def cJSON_String_def
  cJSON_Array_def cJSON_Object_def cJSON_IsReference_def

lemmas dbl_evals =
  number_scan_def int_part_def frac_part_def exp_part_def to_int_def rnd_def rne_def pow2_def
  binade_def c_pow10_def Let_def

subsection \<open>Surrogates\<close>

text \<open>
  Claim C8. The string literal with the escapes uD83D uDE00 (\<open>text_pair\<close>) parses to a string node whose text is the four
  bytes F0 9F 98 80; they are the bytes the code writes for the one code point U+1F600,
  which is what the UTF-16 formula of the code makes of the pair D83D, DE00.
\<close>

theorem surrogate_pair_decodes_to_U1F600:
  "parsed_text (cJSON_Parse 1 (Some text_pair) empty_heap)
     = Some (map char_of [0xF0, 0x9F, 0x98, 0x80 :: nat]) \<and>
   utf8 0x1F600 = map char_of [0xF0, 0x9F, 0x98, 0x80 :: nat] \<and>
   0x10000 + (push_bit 10 (0xD83D AND 0x3FF) OR (0xDE00 AND 0x3FF)) = (0x1F600 :: 32 word)"
  by (simp add: parsed_text_def text_pair_def parse_evals)

text \<open>
  Claim C3. A lone low surrogate and a high surrogate without a following low surrogate
  must both make the parse fail. The first does: \<open>text_lone_low\<close> gives null. The second does
  not when the high surrogate is followed by a \<open>\uXXXX\<close> escape outside DC00-DFFF: the
  second code unit is never range-checked, and \<open>text_high_then_bmp\<close> parses to a string node
  holding the four bytes F0 9F 91 81 (U+1F441).
\<close>

theorem high_surrogate_then_non_low_is_accepted:
  "returns_null (cJSON_Parse 1 (Some text_lone_low) empty_heap) \<and>
   returns_tree (cJSON_Parse 1 (Some text_high_then_bmp) empty_heap) \<and>
   parsed_text (cJSON_Parse 1 (Some text_high_then_bmp) empty_heap)
     = Some (map char_of [0xF0, 0x9F, 0x91, 0x81 :: nat])"
  by (simp add: parsed_text_def returns_null_def returns_tree_def text_lone_low_def
      text_high_then_bmp_def parse_evals cJSON_Delete_unfold)

subsection \<open>The declared length\<close>

text \<open>
  Claim C2. \<open>cJSON_ParseWithLength\<close> must read only the first \<open>buffer_length\<close> bytes and
  must not depend on a terminating NUL. The code compares \<open>buffer_length\<close> with 0 and
  never uses it again: two buffers that agree on their first byte, parsed with length 1,
  give the numbers 1 and 12; a NUL inside the declared length ends the text (the buffer
  NUL, \<open>1\<close> of length 2 gives null); and a buffer of exactly \<open>buffer_length\<close> bytes
  without terminator is read beyond its end.
\<close>

theorem parse_with_length_ignores_length:
  "take 1 (''1'' @ [NUL]) = take 1 (''12'' @ [NUL]) \<and>
   parsed_int (cJSON_ParseWithLength 1 (Some (''1'' @ [NUL])) 1 empty_heap) = Some 1 \<and>
   parsed_int (cJSON_ParseWithLength 1 (Some (''12'' @ [NUL])) 1 empty_heap) = Some 12 \<and>
   returns_null (cJSON_ParseWithLength 1 (Some ([NUL] @ ''1'' @ [NUL])) 2 empty_heap) \<and>
   cJSON_ParseWithLength 1 (Some ''12'') 2 empty_heap = Inl ReadOutOfBounds"
  by (simp add: parsed_int_def returns_null_def parse_evals dbl_evals cJSON_Delete_unfold)

subsection \<open>Nesting depth\<close>

lemma upd_node_Some:
  "nodes h a = Some n \<Longrightarrow> upd_node h a f = Inr (h\<lparr>nodes := (nodes h)(a \<mapsto> f n)\<rparr>)"
  by (simp add: upd_node_def)

lemma New_Item_ok:
  "outcomes h = [] \<Longrightarrow>
   cJSON_New_Item h =
     (Some (brk h), h\<lparr>brk := brk h + 1, nodes := (nodes h)(brk h \<mapsto> zero_item)\<rparr>)"
  by (simp add: cJSON_New_Item_def cJSON_malloc_def)

lemma nested_hd: "\<exists>t. nested k r = CHR ''['' # t"
  by (cases k) simp_all

lemma nested_replicate:
  "nested k rest = replicate (Suc k) CHR ''['' @ replicate (Suc k) CHR '']'' @ rest"
  by (induction k arbitrary: rest) (simp_all add: replicate_append_same)

lemma array_loop_close: "array_loop (Suc f) c (CHR '']'' # rest) h4 = Inr (Some rest, h4)"
  by (simp add: array_loop_body_def peek_def)

lemma parse_array_body_first:
  assumes s1: "upd_node h item (\<lambda>n. n\<lparr>type := cJSON_Array\<rparr>) = Inr h1"
    and s2: "cJSON_New_Item h1 = (Some c, h2)"
    and s3: "upd_node h2 item (\<lambda>n. n\<lparr>child := Some c\<rparr>) = Inr h3"
    and p: "p_value c (Some (CHR ''['' # t)) h3 = Inr (Some r1, h4)"
    and s4: "skip_ws r1 = Inr r2"
  shows "parse_array_body p_value loop item (CHR ''['' # CHR ''['' # t) h = loop c r2 h4"
  using assms by (simp add: parse_array_body_def peek_def skip_def)

lemma parse_value_bracket:
  "parse_value (Suc f) item (Some (CHR ''['' # t)) h = parse_array f item (CHR ''['' # t) h"
  by (simp add: parse_value_body_def peek_def DQ_def is_digit_def)

text \<open>
  An array nested \<open>k + 1\<close> levels deep is parsed, whatever \<open>k\<close> is, when every
  allocation succeeds: with fuel \<open>2 * k + 2\<close> the descent returns the pointer behind the
  array.
\<close>

lemma nested_parses:
  "nodes h item \<noteq> None \<Longrightarrow> outcomes h = [] \<Longrightarrow> 2 * k + 2 \<le> fuel \<Longrightarrow>
   \<exists>h'. parse_value fuel item (Some (nested k rest)) h = Inr (Some rest, h') \<and>
        outcomes h' = [] \<and> (\<forall>a. nodes h a \<noteq> None \<longrightarrow> nodes h' a \<noteq> None)"
proof (induction k arbitrary: h item fuel rest)
  case 0
  then obtain f where fuel: "fuel = Suc (Suc f)"
    by (cases fuel; cases "fuel - 1"; simp)
  from 0 obtain n where n: "nodes h item = Some n" by blast
  have "parse_value fuel item (Some (nested 0 rest)) h =
          Inr (Some rest, h\<lparr>nodes := (nodes h)(item \<mapsto> n\<lparr>type := cJSON_Array\<rparr>)\<rparr>)"
    unfolding fuel
    by (simp add: parse_value_body_def parse_array_body_def peek_def DQ_def NUL_def
        is_digit_def upd_node_Some[OF n])
  then show ?case using 0 by simp
next
  case (Suc k)
  from Suc.prems obtain f where fuel: "fuel = Suc (Suc (Suc f))" and f: "2 * k + 2 \<le> Suc f"
    by (cases fuel; cases "fuel - 1"; cases "fuel - 2"; simp)
  from Suc.prems obtain n where n: "nodes h item = Some n" by blast
  obtain t where t: "nested k (CHR '']'' # rest) = CHR ''['' # t"
    using nested_hd by blast
  define h1 where "h1 = h\<lparr>nodes := (nodes h)(item \<mapsto> n\<lparr>type := cJSON_Array\<rparr>)\<rparr>"
  define h2 where "h2 = h1\<lparr>brk := brk h1 + 1, nodes := (nodes h1)(brk h1 \<mapsto> zero_item)\<rparr>"
  have "nodes h2 item \<noteq> None" by (simp add: h2_def h1_def)
  then obtain m where m: "nodes h2 item = Some m" by blast
  define h3 where "h3 = h2\<lparr>nodes := (nodes h2)(item \<mapsto> m\<lparr>child := Some (brk h1)\<rparr>)\<rparr>"
  have c3: "nodes h3 (brk h1) \<noteq> None" by (simp add: h3_def h2_def)
  have o3: "outcomes h3 = []" using Suc.prems by (simp add: h3_def h2_def h1_def)
  from Suc.IH[OF c3 o3 f, of "CHR '']'' # rest"] obtain h4 where
    p: "parse_value (Suc f) (brk h1) (Some (CHR ''['' # t)) h3 = Inr (Some (CHR '']'' # rest), h4)"
    and o4: "outcomes h4 = []"
    and k4: "\<And>a. nodes h3 a \<noteq> None \<Longrightarrow> nodes h4 a \<noteq> None"
    unfolding t by blast
  have o1: "outcomes h1 = []" using Suc.prems by (simp add: h1_def)
  have s1: "upd_node h item (\<lambda>n. n\<lparr>type := cJSON_Array\<rparr>) = Inr h1"
    by (simp add: upd_node_Some[OF n] h1_def)
  have s2: "cJSON_New_Item h1 = (Some (brk h1), h2)"
    by (simp add: New_Item_ok[OF o1] h2_def)
  have s3: "upd_node h2 item (\<lambda>n. n\<lparr>child := Some (brk h1)\<rparr>) = Inr h3"
    by (simp add: upd_node_Some[OF m] h3_def)
  have s4: "skip_ws (CHR '']'' # rest) = Inr (CHR '']'' # rest)" by (simp add: NUL_def)
  have "parse_array (Suc (Suc f)) item (CHR ''['' # CHR ''['' # t) h = Inr (Some rest, h4)"
    unfolding parse_array.simps
    by (simp only: parse_array_body_first[of h item h1 "brk h1" h2 h3 "parse_value (Suc f)" t
          "CHR '']'' # rest" h4, OF s1 s2 s3 p s4] array_loop_close)
  then have "parse_value fuel item (Some (nested (Suc k) rest)) h = Inr (Some rest, h4)"
    unfolding fuel nested.simps t parse_value_bracket .
  moreover have "\<forall>a. nodes h a \<noteq> None \<longrightarrow> nodes h4 a \<noteq> None"
  proof (intro allI impI)
    fix a assume "nodes h a \<noteq> None"
    then have "nodes h3 a \<noteq> None" by (simp add: h3_def h2_def h1_def)
    then show "nodes h4 a \<noteq> None" by (rule k4)
  qed
  ultimately show ?case using o4 by blast
qed

lemma nested_array_returns_tree:
  "returns_tree (cJSON_ParseWithLength (2 * k + 2) (Some (nested k [NUL])) (2 * k + 2) empty_heap)"
proof -
  define h1 where
    "h1 = \<lparr>nodes = [1 \<mapsto> zero_item], strs = Map.empty, brk = 2, outcomes = [], freed = [],
           ep = None, libm_pow10 = pow10_nearest\<rparr>"
  obtain t where t: "nested k [NUL] = CHR ''['' # t" using nested_hd by blast
  have ni: "cJSON_New_Item empty_heap = (Some 1, h1)"
    by (simp add: cJSON_New_Item_def cJSON_malloc_def empty_heap_def h1_def)
  have e1: "h1\<lparr>ep := None\<rparr> = h1" by (simp add: h1_def)
  have sk: "skip_ws (nested k [NUL]) = Inr (nested k [NUL])"
    unfolding t by (simp add: NUL_def)
  have n1: "nodes h1 1 \<noteq> None" and "outcomes h1 = []" by (simp_all add: h1_def)
  from nested_parses[OF this order_refl, of k "[NUL]"] obtain h' where
    p: "parse_value (2 * k + 2) 1 (Some (nested k [NUL])) h1 = Inr (Some [NUL], h')"
    and l: "nodes h' 1 \<noteq> None"
    using n1 by blast
  have nz: "(2 * k + 2 = 0) = False" by simp
  have "cJSON_ParseWithLength (2 * k + 2) (Some (nested k [NUL])) (2 * k + 2) empty_heap
          = Inr (Some 1, h')"
    unfolding cJSON_ParseWithLength_def
    by (simp only: option.case nz if_False ni prod.case sk bnd_Inr e1 p)
  then show ?thesis
    using l by (simp add: returns_tree_def)
qed

text \<open>
  Claim C1. Parsing must fail with a nesting-depth error beyond a bound, in particular on
  an array nested 10,000 levels deep. The constant \<open>CJSON_NESTING_LIMIT\<close> is 1000, but
  no function of the parser reads it or counts the depth: the array nested 10,000 levels
  deep is parsed and a tree is returned.
\<close>

theorem nesting_limit_is_not_enforced:
  "CJSON_NESTING_LIMIT = 1000 \<and>
   returns_tree
     (cJSON_ParseWithLength 20000
        (Some (replicate 10000 CHR ''['' @ replicate 10000 CHR '']'' @ [NUL])) 20000 empty_heap)"
proof -
  have "returns_tree
     (cJSON_ParseWithLength (2 * 9999 + 2) (Some (nested 9999 [NUL])) (2 * 9999 + 2) empty_heap)"
    by (rule nested_array_returns_tree)
  then show ?thesis
    by (simp add: nested_replicate CJSON_NESTING_LIMIT_def)
qed

subsection \<open>Detaching and deleting one child\<close>

lemma dll_iff:
  "dll h pr p ss \<longleftrightarrow> p = headptr ss \<and> (\<forall>i<length ss. link_ok h pr ss i)"
proof (induction ss arbitrary: pr p)
  case Nil
  then show ?case by (cases p) (simp_all add: headptr_def)
next
  case (Cons s ss)
  obtain b ks where s: "s = Sh b ks" by (cases s)
  show ?case
  proof (cases p)
    case None
    then show ?thesis by (simp add: headptr_def)
  next
    case (Some a)
    show ?thesis
    proof (cases "a = b")
      case False
      then show ?thesis using Some s by (simp add: headptr_def)
    next
      case True
      have shift: "\<And>i. i < length ss \<Longrightarrow> link_ok h pr (s # ss) (Suc i) = link_ok h (Some b) ss i"
        by (auto simp: link_ok_def s nth_Cons' split: option.splits)
      have zero: "link_ok h pr (s # ss) 0 \<longleftrightarrow>
           (\<exists>n. nodes h b = Some n \<and> prev n = pr \<and> nxt n = headptr ss \<and> owns h (owned_child n) ks)"
        by (cases ss) (auto simp: link_ok_def s headptr_def split: option.splits)
      have all: "(\<forall>i<length (s # ss). link_ok h pr (s # ss) i) \<longleftrightarrow>
           link_ok h pr (s # ss) 0 \<and> (\<forall>i<length ss. link_ok h (Some b) ss i)"
        using shift by (auto simp: less_Suc_eq_0_disj)
      show ?thesis
        unfolding all zero using Some True s Cons.IH
        by (auto simp: headptr_def split: option.splits)
    qed
  qed
qed

lemma dll_walk:
  "dll h pr p ss \<Longrightarrow> i < length ss \<Longrightarrow> walk h p i = Inr (Some (root (ss ! i)))"
proof (induction i arbitrary: pr p ss)
  case 0
  then show ?case by (cases ss; cases p) (auto split: option.splits elim: dll.elims)
next
  case (Suc i)
  then obtain s rest where ss: "ss = s # rest" by (cases ss) auto
  obtain b ks where s: "s = Sh b ks" by (cases s)
  from Suc.prems ss s obtain n where p: "p = Some b" and n: "nodes h b = Some n"
    and d: "dll h (Some b) (nxt n) rest"
    by (cases p) (auto split: option.splits)
  from Suc.IH[OF d] Suc.prems ss have "walk h (nxt n) i = Inr (Some (root (rest ! i)))" by simp
  then show ?case using p n ss by (simp add: rd_node_def)
qed


lemma addrs_root: "addrs s = root s # addrs_list (kids s)"
  by (cases s) simp

lemma addrs_nth_subset: "j < length ss \<Longrightarrow> set (addrs (ss ! j)) \<subseteq> set (addrs_list ss)"
proof (induction ss arbitrary: j)
  case Nil
  then show ?case by simp
next
  case (Cons s ss)
  then show ?case by (cases j) auto
qed

lemma distinct_addrs_nth_less:
  "distinct (addrs_list ss) \<Longrightarrow> i < j \<Longrightarrow> j < length ss \<Longrightarrow>
   set (addrs (ss ! i)) \<inter> set (addrs (ss ! j)) = {}"
proof (induction ss arbitrary: i j)
  case Nil
  then show ?case by simp
next
  case (Cons s ss)
  obtain j' where j: "j = Suc j'" using Cons.prems(2) by (cases j) auto
  show ?case
  proof (cases i)
    case 0
    have "set (addrs (ss ! j')) \<subseteq> set (addrs_list ss)"
      using addrs_nth_subset Cons.prems(3) j by simp
    then show ?thesis using Cons.prems(1) 0 j by auto
  next
    case (Suc i')
    then show ?thesis using Cons.IH[of i' j'] Cons.prems j by simp
  qed
qed

lemma distinct_addrs_nth:
  "distinct (addrs_list ss) \<Longrightarrow> i \<noteq> j \<Longrightarrow> i < length ss \<Longrightarrow> j < length ss \<Longrightarrow>
   set (addrs (ss ! i)) \<inter> set (addrs (ss ! j)) = {}"
  using distinct_addrs_nth_less[of ss i j] distinct_addrs_nth_less[of ss j i]
  by (cases "i < j") (auto simp: Int_commute)

lemma distinct_addrs_one:
  "distinct (addrs_list ss) \<Longrightarrow> i < length ss \<Longrightarrow> distinct (addrs (ss ! i))"
proof (induction ss arbitrary: i)
  case Nil
  then show ?case by simp
next
  case (Cons s ss)
  then show ?case by (cases i) auto
qed

lemma root_in_addrs: "root s \<in> set (addrs s)"
  by (simp add: addrs_root)

lemma roots_differ:
  "distinct (addrs_list ss) \<Longrightarrow> i \<noteq> j \<Longrightarrow> i < length ss \<Longrightarrow> j < length ss \<Longrightarrow>
   root (ss ! i) \<noteq> root (ss ! j)"
  using distinct_addrs_nth[of ss i j] root_in_addrs[of "ss ! i"] root_in_addrs[of "ss ! j"]
  by auto

lemma root_not_in_kids:
  "distinct (addrs_list ss) \<Longrightarrow> i < length ss \<Longrightarrow> j < length ss \<Longrightarrow>
   root (ss ! i) \<notin> set (addrs_list (kids (ss ! j)))"
proof (cases "i = j")
  case True
  assume "distinct (addrs_list ss)" "i < length ss"
  then have "distinct (addrs (ss ! i))" by (rule distinct_addrs_one)
  then show ?thesis using True by (simp add: addrs_root)
next
  case False
  assume "distinct (addrs_list ss)" "i < length ss" "j < length ss"
  with False have "set (addrs (ss ! i)) \<inter> set (addrs (ss ! j)) = {}"
    by (simp add: distinct_addrs_nth)
  then show ?thesis using root_in_addrs[of "ss ! i"] by (auto simp: addrs_root[of "ss ! j"])
qed


lemma headptr_nth: "ss \<noteq> [] \<Longrightarrow> headptr ss = Some (root (ss ! 0))"
  by (cases ss) (simp_all add: headptr_def)

lemma link_okD:
  "link_ok h pr ss i \<Longrightarrow>
   \<exists>n. nodes h (root (ss ! i)) = Some n \<and>
       prev n = (if i = 0 then pr else Some (root (ss ! (i - 1)))) \<and>
       nxt n = (if Suc i < length ss then Some (root (ss ! Suc i)) else None) \<and>
       owns h (owned_child n) (kids (ss ! i))"
  by (auto simp: link_ok_def split: option.splits)

lemma detach_effect:
  assumes arr: "nodes h a = Some arr"
    and d: "dll h None (child arr) ss"
    and dist: "distinct (a # addrs_list ss)"
    and i: "i < length ss"
    and n: "nodes h (root (ss ! i)) = Some n"
  shows "\<exists>h4. cJSON_DetachItemFromArray (Some a) (int i) h = Inr (Some (root (ss ! i)), h4) \<and>
          strs h4 = strs h \<and>
          (\<forall>x. nodes h4 x =
            (if x = root (ss ! i) then Some (n\<lparr>prev := None, nxt := None\<rparr>)
             else if x = a then Some (if i = 0 then arr\<lparr>child := nxt n\<rparr> else arr)
             else if 0 < i \<and> x = root (ss ! (i - 1))
                  then map_option (\<lambda>m. m\<lparr>nxt := nxt n\<rparr>) (nodes h x)
             else if Suc i < length ss \<and> x = root (ss ! Suc i)
                  then map_option (\<lambda>m. m\<lparr>prev := prev n\<rparr>) (nodes h x)
             else nodes h x))"
proof -
  let ?c = "root (ss ! i)"
  from d have hp: "child arr = headptr ss" and lk: "\<And>j. j < length ss \<Longrightarrow> link_ok h None ss j"
    by (simp_all add: dll_iff)
  from i have ne: "ss \<noteq> []" by auto
  have ch: "child arr = Some (root (ss ! 0))" using hp headptr_nth[OF ne] by simp
  have w: "walk h (child arr) (nat (int i)) = Inr (Some ?c)"
    using dll_walk[OF d i] by simp
  from dist have da: "distinct (addrs_list ss)" and an: "a \<notin> set (addrs_list ss)" by simp_all
  have ra: "\<And>j. j < length ss \<Longrightarrow> root (ss ! j) \<noteq> a"
    using an addrs_nth_subset root_in_addrs by blast
  have rd: "\<And>j k. j < length ss \<Longrightarrow> k < length ss \<Longrightarrow> j \<noteq> k \<Longrightarrow> root (ss ! j) \<noteq> root (ss ! k)"
    using roots_differ[OF da] by blast
  from link_okD[OF lk[OF i]] n have
    pn: "prev n = (if i = 0 then None else Some (root (ss ! (i - 1))))"
    and nn: "nxt n = (if Suc i < length ss then Some (root (ss ! Suc i)) else None)"
    by auto
  have ca: "?c \<noteq> a" using ra[OF i] .
  consider (single) "i = 0" "\<not> Suc i < length ss"
    | (first) "i = 0" "Suc i < length ss"
    | (last) "0 < i" "\<not> Suc i < length ss"
    | (middle) "0 < i" "Suc i < length ss"
    by blast
  then show ?thesis
  proof cases
    case single
    then have pn0: "prev n = None" and nn0: "nxt n = None" using pn nn by simp_all
    show ?thesis
      using arr n w ca single ch
      by (simp add: cJSON_DetachItemFromArray_def rd_node_def upd_node_def pn0 nn0)
  next
    case first
    let ?q = "root (ss ! Suc i)"
    have pn0: "prev n = None" and nn0: "nxt n = Some ?q" using pn nn first by simp_all
    from link_okD[OF lk[OF first(2)]] obtain mq where mq: "nodes h ?q = Some mq" by blast
    have qc: "?q \<noteq> ?c" using rd[OF first(2) i] by simp
    have qa: "?q \<noteq> a" using ra[OF first(2)] .
    show ?thesis
      using arr n w ca first ch mq qc qa
      by (simp add: cJSON_DetachItemFromArray_def rd_node_def upd_node_def pn0 nn0)
  next
    case last
    let ?p = "root (ss ! (i - 1))"
    have pi: "i - 1 < length ss" using i by simp
    have pn0: "prev n = Some ?p" and nn0: "nxt n = None" using pn nn last by simp_all
    from link_okD[OF lk[OF pi]] obtain mp where mp: "nodes h ?p = Some mp" by blast
    have pc: "?p \<noteq> ?c" using rd[OF pi i] last by simp
    have pa: "?p \<noteq> a" using ra[OF pi] .
    have c0: "root (ss ! 0) \<noteq> ?c" using rd[of 0 i] i last ne by simp
    show ?thesis
      using arr n w ca last ch mp pc pa c0
      by (simp add: cJSON_DetachItemFromArray_def rd_node_def upd_node_def pn0 nn0)
  next
    case middle
    let ?p = "root (ss ! (i - 1))"
    let ?q = "root (ss ! Suc i)"
    have pi: "i - 1 < length ss" using i by simp
    have pn0: "prev n = Some ?p" and nn0: "nxt n = Some ?q" using pn nn middle by simp_all
    from link_okD[OF lk[OF pi]] obtain mp where mp: "nodes h ?p = Some mp" by blast
    from link_okD[OF lk[OF middle(2)]] obtain mq where mq: "nodes h ?q = Some mq" by blast
    have pc: "?p \<noteq> ?c" using rd[OF pi i] middle by simp
    have pa: "?p \<noteq> a" using ra[OF pi] .
    have qc: "?q \<noteq> ?c" using rd[OF middle(2) i] by simp
    have qa: "?q \<noteq> a" using ra[OF middle(2)] .
    have pq: "?p \<noteq> ?q" using rd[OF pi middle(2)] middle by simp
    have c0: "root (ss ! 0) \<noteq> ?c" using rd[of 0 i] i middle ne by simp
    show ?thesis
      using arr n w ca middle ch mp mq pc pa qc qa pq c0
      by (simp add: cJSON_DetachItemFromArray_def rd_node_def upd_node_def pn0 nn0)
  qed
qed


lemma nth_remove:
  "i < length ss \<Longrightarrow> j < length ss - 1 \<Longrightarrow>
   (take i ss @ drop (Suc i) ss) ! j = ss ! (if j < i then j else Suc j)"
  by (simp add: nth_append min_def)

lemma owned_child_links [simp]:
  "owned_child (m\<lparr>nxt := x\<rparr>) = owned_child m"
  "owned_child (m\<lparr>prev := y\<rparr>) = owned_child m"
  by (simp_all add: owned_child_def)

lemma kids_not_root:
  "distinct (addrs_list ss) \<Longrightarrow> k < length ss \<Longrightarrow> x \<in> set (addrs_list (kids (ss ! k))) \<Longrightarrow>
   j < length ss \<Longrightarrow> x \<noteq> root (ss ! j)"
  using root_not_in_kids[of ss j k] by auto

lemma kids_in_addrs:
  "k < length ss \<Longrightarrow> x \<in> set (addrs_list (kids (ss ! k))) \<Longrightarrow> x \<in> set (addrs_list ss)"
  using addrs_nth_subset[of k ss] by (auto simp: addrs_root[of "ss ! k"])

lemma kids_disjoint:
  "distinct (addrs_list ss) \<Longrightarrow> k < length ss \<Longrightarrow> i < length ss \<Longrightarrow> k \<noteq> i \<Longrightarrow>
   x \<in> set (addrs_list (kids (ss ! k))) \<Longrightarrow> x \<notin> set (addrs (ss ! i))"
  using distinct_addrs_nth[of ss k i] by (auto simp: addrs_root[of "ss ! k"])

text \<open>
  Claim C10. For a container \<open>a\<close> whose child list is the well-formed doubly linked
  chain \<open>ss\<close> and an index \<open>i\<close> within it, \<open>cJSON_DeleteItemFromArray\<close> returns (given
  fuel for the nodes of the \<open>i\<close>-th child, whose buffers are live, owned and distinct);
  the nodes that are freed are exactly those of the \<open>i\<close>-th child and its subtree, the
  buffers that are freed exactly their keys and texts; and the container's child list is
  afterwards the
  chain of the other children, in their order, with consistent \<open>prev\<close> and \<open>next\<close>
  links. The cascade of \<open>cJSON_Delete\<close> stops at once because the detached node's
  \<open>next\<close> is null.
\<close>

theorem delete_item_from_array_frees_exactly_one:
  assumes arr: "nodes h a = Some arr"
    and d: "dll h None (child arr) ss"
    and dist: "distinct (a # addrs_list ss)"
    and i: "i < length ss"
    and sd: "distinct (strs_of h (addrs (ss ! i)))"
    and sl: "\<forall>x\<in>set (strs_of h (addrs (ss ! i))). strs h x \<noteq> None"
    and ko: "keys_owned h (addrs (ss ! i))"
    and fuel: "length (addrs (ss ! i)) \<le> fuel"
  shows "\<exists>h' arr'. cJSON_DeleteItemFromArray fuel (Some a) (int i) h = Inr h' \<and>
           nodes h' a = Some arr' \<and>
           dll h' None (child arr') (take i ss @ drop (Suc i) ss) \<and>
           (\<forall>x. (nodes h' x = None) = (x \<in> set (addrs (ss ! i)) \<or> nodes h x = None)) \<and>
           (\<forall>x. strs h' x = (if x \<in> set (strs_of h (addrs (ss ! i))) then None else strs h x))"
proof -
  let ?c = "root (ss ! i)"
  let ?ss' = "take i ss @ drop (Suc i) ss"
  from d have hp: "child arr = headptr ss" and lk: "\<And>j. j < length ss \<Longrightarrow> link_ok h None ss j"
    by (simp_all add: dll_iff)
  from i have ne: "ss \<noteq> []" by auto
  from dist have da: "distinct (addrs_list ss)" and an: "a \<notin> set (addrs_list ss)" by simp_all
  have ra: "\<And>j. j < length ss \<Longrightarrow> root (ss ! j) \<noteq> a"
    using an addrs_nth_subset root_in_addrs by blast
  have rd: "\<And>j k. j < length ss \<Longrightarrow> k < length ss \<Longrightarrow> j \<noteq> k \<Longrightarrow> root (ss ! j) \<noteq> root (ss ! k)"
    using roots_differ[OF da] by blast
  from link_okD[OF lk[OF i]] obtain n where n: "nodes h ?c = Some n"
    and pn: "prev n = (if i = 0 then None else Some (root (ss ! (i - 1))))"
    and nn: "nxt n = (if Suc i < length ss then Some (root (ss ! Suc i)) else None)"
    and on: "owns h (owned_child n) (kids (ss ! i))"
    by blast
  from detach_effect[OF arr d dist i n] obtain h4 where
    det: "cJSON_DetachItemFromArray (Some a) (int i) h = Inr (Some ?c, h4)"
    and st4: "strs h4 = strs h"
    and n4: "\<And>x. nodes h4 x =
            (if x = ?c then Some (n\<lparr>prev := None, nxt := None\<rparr>)
             else if x = a then Some (if i = 0 then arr\<lparr>child := nxt n\<rparr> else arr)
             else if 0 < i \<and> x = root (ss ! (i - 1))
                  then map_option (\<lambda>m. m\<lparr>nxt := nxt n\<rparr>) (nodes h x)
             else if Suc i < length ss \<and> x = root (ss ! Suc i)
                  then map_option (\<lambda>m. m\<lparr>prev := prev n\<rparr>) (nodes h x)
             else nodes h x)"
    by blast
  have below: "\<And>k x. k < length ss \<Longrightarrow> x \<in> set (addrs_list (kids (ss ! k))) \<Longrightarrow>
                 nodes h4 x = nodes h x"
  proof -
    fix k x assume k: "k < length ss" and x: "x \<in> set (addrs_list (kids (ss ! k)))"
    have "x \<noteq> a" using kids_in_addrs[OF k x] an by auto
    moreover have "\<And>j. j < length ss \<Longrightarrow> x \<noteq> root (ss ! j)"
      using kids_not_root[OF da k x] .
    ultimately show "nodes h4 x = nodes h x" using n4[of x] i by auto
  qed
  have o4: "owns h4 (Some ?c) [ss ! i]"
  proof -
    have "owns h4 (owned_child n) (kids (ss ! i)) = owns h (owned_child n) (kids (ss ! i))"
      by (rule owns_frame) (rule below[OF i])
    with on show ?thesis
      by (cases "ss ! i") (simp add: n4)
  qed
  have d1: "distinct (addrs_list [ss ! i])" using distinct_addrs_one[OF da i] by simp
  have l1: "length (addrs_list [ss ! i]) \<le> fuel" using fuel by simp
  have sf: "strs_of h4 (addrs (ss ! i)) = strs_of h (addrs (ss ! i))"
  proof -
    have "strs_of h4 (addrs_list (kids (ss ! i))) = strs_of h (addrs_list (kids (ss ! i)))"
      by (rule strs_of_frame) (rule below[OF i])
    then show ?thesis
      by (simp add: addrs_root strs_of_Cons n4 n node_strs_def split: option.splits)
  qed
  have sd4: "distinct (strs_of h4 (addrs_list [ss ! i]))" using sd sf by simp
  have sl4: "\<forall>x\<in>set (strs_of h4 (addrs_list [ss ! i])). strs h4 x \<noteq> None"
    using sl sf st4 by simp
  from delete_owned[OF o4 d1 sd4 sl4 l1] obtain h' where
    del: "cJSON_Delete fuel (Some ?c) h4 = Inr h'"
    and n': "\<And>x. nodes h' x = (if x \<in> set (addrs (ss ! i)) then None else nodes h4 x)"
    and s': "\<And>x. strs h' x = (if x \<in> set (strs_of h (addrs (ss ! i))) then None else strs h x)"
    using sf st4 by auto
  have res: "cJSON_DeleteItemFromArray fuel (Some a) (int i) h = Inr h'"
    by (simp add: cJSON_DeleteItemFromArray_def det del)
  have ai: "a \<notin> set (addrs (ss ! i))" using an addrs_nth_subset[OF i] by auto
  define arr' where "arr' = (if i = 0 then arr\<lparr>child := nxt n\<rparr> else arr)"
  have a': "nodes h' a = Some arr'"
    using n'[of a] ai n4[of a] ra[OF i] by (simp add: arr'_def)
  have len': "length ?ss' = length ss - 1" using i by simp
  have head: "child arr' = headptr ?ss'"
  proof (cases "i = 0")
    case True
    then show ?thesis using nn ne
      by (cases ss; cases "tl ss") (auto simp: arr'_def headptr_def)
  next
    case False
    then show ?thesis using hp ne i
      by (cases ss; cases i) (auto simp: arr'_def headptr_def)
  qed
  have links: "\<And>j. j < length ?ss' \<Longrightarrow> link_ok h' None ?ss' j"
  proof -
    fix j assume j: "j < length ?ss'"
    define k where "k = (if j < i then j else Suc j)"
    have k: "k < length ss" and ki: "k \<noteq> i" using j len' i by (auto simp: k_def)
    have sj: "?ss' ! j = ss ! k" using nth_remove[OF i] j len' by (simp add: k_def)
    from link_okD[OF lk[OF k]] obtain m where m: "nodes h (root (ss ! k)) = Some m"
      and pm: "prev m = (if k = 0 then None else Some (root (ss ! (k - 1))))"
      and nm: "nxt m = (if Suc k < length ss then Some (root (ss ! Suc k)) else None)"
      and om: "owns h (owned_child m) (kids (ss ! k))"
      by blast
    have rk: "root (ss ! k) \<notin> set (addrs (ss ! i))"
      using distinct_addrs_nth[OF da ki k i] root_in_addrs[of "ss ! k"] by auto
    have kc: "root (ss ! k) \<noteq> ?c" using rd[OF k i ki] .
    have ka: "root (ss ! k) \<noteq> a" using ra[OF k] .
    define m' where "m' = (if 0 < i \<and> k = i - 1 then m\<lparr>nxt := nxt n\<rparr>
                           else if k = Suc i then m\<lparr>prev := prev n\<rparr> else m)"
    have eqp: "\<And>q. q < length ss \<Longrightarrow> (root (ss ! k) = root (ss ! q)) = (k = q)"
      using rd[OF k] by blast
    have nk: "nodes h' (root (ss ! k)) = Some m'"
      using n'[of "root (ss ! k)"] rk n4[of "root (ss ! k)"] kc ka m i k
      by (auto simp: m'_def eqp)
    have ow: "owns h' (owned_child m') (kids (ss ! k))"
    proof -
      have "owns h' (owned_child m) (kids (ss ! k)) = owns h (owned_child m) (kids (ss ! k))"
      proof (rule owns_frame)
        fix x assume x: "x \<in> set (addrs_list (kids (ss ! k)))"
        have "x \<notin> set (addrs (ss ! i))" using kids_disjoint[OF da k i ki x] .
        then show "nodes h' x = nodes h x" using n'[of x] below[OF k x] by simp
      qed
      with om show ?thesis by (auto simp: m'_def)
    qed
    have pv: "prev m' = (if j = 0 then None else Some (root (?ss' ! (j - 1))))"
    proof (cases "j = 0")
      case True
      then show ?thesis using pm pn i by (auto simp: m'_def k_def)
    next
      case False
      then have "j - 1 < length ss - 1" using j len' by simp
      from nth_remove[OF i this] have "?ss' ! (j - 1) = ss ! (if j - 1 < i then j - 1 else j)"
        using False by simp
      then show ?thesis using False pm pn i
        by (auto simp: m'_def k_def)
    qed
    have nx: "nxt m' = (if Suc j < length ?ss' then Some (root (?ss' ! Suc j)) else None)"
    proof (cases "Suc j < length ?ss'")
      case False
      then show ?thesis using nm nn j len' i by (auto simp: m'_def k_def)
    next
      case True
      then have "Suc j < length ss - 1" using len' by simp
      from nth_remove[OF i this] have "?ss' ! Suc j = ss ! (if Suc j < i then Suc j else Suc (Suc j))"
        by simp
      then show ?thesis using True nm nn j len' i
        by (auto simp: m'_def k_def)
    qed
    show "link_ok h' None ?ss' j"
      unfolding link_ok_def sj using nk pv nx ow sj by simp
  qed
  have dl: "dll h' None (child arr') ?ss'"
    using head links by (simp add: dll_iff)
  have ex: "\<forall>x. (nodes h' x = None) = (x \<in> set (addrs (ss ! i)) \<or> nodes h x = None)"
  proof
    fix x
    show "(nodes h' x = None) = (x \<in> set (addrs (ss ! i)) \<or> nodes h x = None)"
      using n'[of x] n4[of x] root_in_addrs[of "ss ! i"] arr by auto
  qed
  from res a' dl ex s' show ?thesis by blast
qed

text \<open>
  Deleting the second member (address 4, index 1) of the object of \<open>object3_heap\<close> frees
  that member with its key (buffer 6) and its text (buffer 5); the members at 2 and 7 and
  their keys stay, linked to each other.
\<close>

theorem delete_item_from_array_frees_exactly_one_witness:
  "nodes object3_heap 1 = Some (zero_item\<lparr>type := cJSON_Object, child := Some 2\<rparr>) \<and>
   dll object3_heap None (Some 2) [Sh 2 [], Sh 4 [], Sh 7 []] \<and>
   distinct (1 # addrs_list [Sh 2 [], Sh 4 [], Sh 7 []]) \<and>
   strs_of object3_heap (addrs ([Sh 2 [], Sh 4 [], Sh 7 []] ! 1)) = [5, 6] \<and>
   keys_owned object3_heap (addrs ([Sh 2 [], Sh 4 [], Sh 7 []] ! 1)) \<and>
   (\<exists>h' arr'. cJSON_DeleteItemFromArray 1 (Some 1) 1 object3_heap = Inr h' \<and>
       nodes h' 1 = Some arr' \<and>
       dll h' None (child arr') [Sh 2 [], Sh 7 []] \<and>
       nodes h' 2 \<noteq> None \<and> nodes h' 4 = None \<and> nodes h' 7 \<noteq> None \<and>
       strs h' 3 \<noteq> None \<and> strs h' 5 = None \<and> strs h' 6 = None \<and> strs h' 8 \<noteq> None)"
proof -
  let ?arr = "zero_item\<lparr>type := cJSON_Object, child := Some 2\<rparr>"
  let ?ss = "[Sh 2 [], Sh 4 [], Sh 7 []]"
  have a: "nodes object3_heap 1 = Some ?arr" by (simp add: object3_heap_def)
  have d: "dll object3_heap None (child ?arr) ?ss"
    by (simp add: object3_heap_def footprint_evals)
  have di: "distinct (1 # addrs_list ?ss)" by simp
  have i: "(1::nat) < length ?ss" by simp
  have st: "strs_of object3_heap (addrs (?ss ! 1)) = [5, 6]"
    by (simp add: object3_heap_def footprint_evals)
  have sd: "distinct (strs_of object3_heap (addrs (?ss ! 1)))" unfolding st by simp
  have sl: "\<forall>x\<in>set (strs_of object3_heap (addrs (?ss ! 1))). strs object3_heap x \<noteq> None"
    unfolding st by (simp add: object3_heap_def)
  have ko: "keys_owned object3_heap (addrs (?ss ! 1))"
    by (simp add: object3_heap_def footprint_evals)
  have f: "length (addrs (?ss ! 1)) \<le> 1" by simp
  from delete_item_from_array_frees_exactly_one[OF a d di i sd sl ko f] obtain h' arr' where
    r: "cJSON_DeleteItemFromArray 1 (Some 1) (int 1) object3_heap = Inr h'"
    and a': "nodes h' 1 = Some arr'"
    and d': "dll h' None (child arr') (take 1 ?ss @ drop (Suc 1) ?ss)"
    and x: "\<forall>x. (nodes h' x = None) = (x \<in> set (addrs (?ss ! 1)) \<or> nodes object3_heap x = None)"
    and y: "\<forall>x. strs h' x =
              (if x \<in> set (strs_of object3_heap (addrs (?ss ! 1))) then None
               else strs object3_heap x)"
    by blast
  have "nodes h' 2 \<noteq> None" "nodes h' 4 = None" "nodes h' 7 \<noteq> None"
    using x by (simp_all add: object3_heap_def)
  moreover have "strs h' 3 \<noteq> None" "strs h' 5 = None" "strs h' 6 = None" "strs h' 8 \<noteq> None"
    using y unfolding st by (simp_all add: object3_heap_def)
  moreover have "dll h' None (child arr') [Sh 2 [], Sh 7 []]" using d' by simp
  moreover have "cJSON_DeleteItemFromArray 1 (Some 1) 1 object3_heap = Inr h'" using r by simp
  ultimately show ?thesis using a d di a' st ko by (simp add: zero_item_def del: dll.simps)
qed

subsection \<open>Numbers\<close>

lemma bit_length_le: "n < 2 ^ k \<Longrightarrow> bit_length n \<le> k"
proof (induction k arbitrary: n)
  case 0
  then show ?case by simp
next
  case (Suc k)
  show ?case
  proof (cases "n = 0")
    case True
    then show ?thesis by simp
  next
    case False
    from Suc.prems have "n div 2 < 2 ^ k" by simp
    from Suc.IH[OF this] False show ?thesis by (subst bit_length.simps) simp
  qed
qed

lemma rne_of_int [simp]: "rne (of_int z) = z"
  by (simp add: rne_def)

lemma rnd_nat:
  assumes "n < 2 ^ 53"
  shows "rnd (of_nat n) = Finite (of_nat n)"
proof (cases "n = 0")
  case True
  then show ?thesis by (simp add: rnd_def)
next
  case False
  define b where "b = bit_length n"
  have b53: "b \<le> 53" using bit_length_le[OF assms] by (simp add: b_def)
  have b1: "1 \<le> b" using False by (simp add: b_def)
  have bin: "binade (of_nat n) = int b - 1"
    using False by (simp add: binade_def b_def)
  have mx: "max (int b - 1) (- 1022) - 52 = - int (53 - b)" using b53 b1 by simp
  have u: "pow2 (- int (53 - b)) = 1 / 2 ^ (53 - b)"
    by (cases "53 - b = 0") (simp_all add: pow2_def)
  have q: "(of_nat n :: rat) / (1 / 2 ^ (53 - b)) = of_int (int (n * 2 ^ (53 - b)))"
    by simp
  have r: "of_int (rne (\<bar>of_nat n\<bar> / pow2 (max (binade \<bar>of_nat n\<bar>) (- 1022) - 52)))
             * pow2 (max (binade \<bar>of_nat n\<bar>) (- 1022) - 52) = (of_nat n :: rat)"
    unfolding abs_of_nat bin mx u q rne_of_int by simp
  have lt: "(of_nat n :: rat) < pow2 1024"
  proof -
    have "n < 2 ^ 1024" using assms by (rule less_le_trans) simp
    then have "(of_nat n :: rat) < of_nat (2 ^ 1024)" by (simp only: of_nat_less_iff)
    then show ?thesis by (simp add: pow2_def)
  qed
  show ?thesis
    using False lt by (simp add: rnd_def Let_def r[unfolded abs_of_nat])
qed


lemma rnd_neg_nat:
  assumes "n < 2 ^ 53"
  shows "rnd (- of_nat n) = Finite (- of_nat n)"
proof (cases "n = 0")
  case True
  then show ?thesis by (simp add: rnd_def)
next
  case False
  have "rnd (of_nat n) = Finite (of_nat n)" using assms by (rule rnd_nat)
  then show ?thesis using False
    by (simp add: rnd_def Let_def split: if_splits)
qed

lemma rnd_int:
  assumes "\<bar>z\<bar> < 2 ^ 53"
  shows "rnd (of_int z) = Finite (of_int z)"
proof (cases "0 \<le> z")
  case True
  then have "nat z < 2 ^ 53" using assms by (simp add: nat_less_iff)
  from rnd_nat[OF this] True show ?thesis by simp
next
  case False
  then have "nat (- z) < 2 ^ 53" using assms by (simp add: nat_less_iff)
  from rnd_neg_nat[OF this] False show ?thesis by simp
qed















lemma has_prefix_mismatch: "c \<noteq> l \<Longrightarrow> has_prefix (c # cs) (l # ls) = Inr False"
  by simp







subsection \<open>A failed parse\<close>

lemma bndE:
  assumes "bnd x f = Inr y"
  obtains z where "x = Inr z" and "f z = Inr y"
  using assms by (cases x) (simp_all add: bnd_def)

lemma upd_nodeD:
  "upd_node h a f = Inr h' \<Longrightarrow> \<exists>n. nodes h a = Some n \<and> h' = h\<lparr>nodes := (nodes h)(a \<mapsto> f n)\<rparr>"
  by (auto simp: upd_node_def split: option.splits)

lemma New_ItemD:
  "cJSON_New_Item h = (r, h1) \<Longrightarrow>
   strs h1 = strs h \<and>
   (case r of
      None \<Rightarrow> nodes h1 = nodes h \<and> brk h1 = brk h
    | Some a \<Rightarrow> a = brk h \<and> brk h1 = brk h + 1 \<and> nodes h1 = (nodes h)(a \<mapsto> zero_item))"
  by (auto simp: cJSON_New_Item_def cJSON_malloc_def split: list.splits if_splits)

lemma heap_ok_live:
  assumes "heap_ok h" and "nodes h a = Some n"
  shows "a < brk h"
proof (rule ccontr)
  assume "\<not> a < brk h"
  then have "brk h \<le> a" by simp
  with assms(1) have "nodes h a = None" by (simp add: heap_ok_def)
  with assms(2) show False by simp
qed

lemma heap_ok_fresh: "heap_ok h \<Longrightarrow> nodes h (brk h) = None \<and> strs h (brk h) = None"
  by (simp add: heap_ok_def)

lemma owns_live:
  "owns h p ss \<Longrightarrow> a \<in> set (addrs_list ss) \<Longrightarrow> nodes h a \<noteq> None"
proof (induction h p ss rule: owns.induct)
  case (1 h ss)
  then show ?case by simp
next
  case (2 h a)
  then show ?case by simp
next
  case (3 h c b ks ss)
  then show ?case by (auto split: option.splits)
qed

lemma plain_child: "plain n \<Longrightarrow> owned_child n = child n"
  by (simp add: plain_def owned_child_def)

lemma plain_node_strs: "plain n \<Longrightarrow> node_strs n = vstr n @ (case string n of Some k \<Rightarrow> [k] | None \<Rightarrow> [])"
  by (simp add: plain_def node_strs_def vstr_def split: option.splits)

lemma ext_refl: "heap_ok h \<Longrightarrow> ext h h M [] []"
  by (simp add: ext_def)

lemma ext_trans:
  assumes "ext h h1 M A1 X1" and "ext h1 h2 M2 A2 X2" and "M2 \<subseteq> M \<union> set A1"
  shows "ext h h2 M (A1 @ A2) (X1 @ X2)"
  using assms unfolding ext_def
  apply (intro conjI)
         apply simp
        apply simp
       apply fastforce
      apply fastforce
     apply fastforce
    apply (metis Un_iff le_trans less_le_trans not_le set_append)
   apply (metis (no_types, lifting) Un_iff set_append subsetD)
  apply (metis Un_iff set_append)
  done

lemma ext_perm:
  "ext h h' M A X \<Longrightarrow> set X' = set X \<Longrightarrow> distinct X' \<Longrightarrow> ext h h' M A X'"
  by (simp add: ext_def)

lemma ext_frame_nodes:
  "ext h h' M A X \<Longrightarrow> a \<notin> M \<Longrightarrow> a < brk h \<Longrightarrow> nodes h' a = nodes h a"
  by (fastforce simp: ext_def)

text \<open>Deletion with the fuel that the chain needs.\<close>

lemma delete_within_need:
  "owns h p ss \<Longrightarrow> distinct (addrs_list ss) \<Longrightarrow> distinct (strs_of h (addrs_list ss)) \<Longrightarrow>
   \<forall>x\<in>set (strs_of h (addrs_list ss)). strs h x \<noteq> None \<Longrightarrow> need ss \<le> fuel \<Longrightarrow>
   \<exists>h'. cJSON_Delete fuel p h = Inr h' \<and>
        (\<forall>a. nodes h' a = (if a \<in> set (addrs_list ss) then None else nodes h a)) \<and>
        (\<forall>x. strs h' x = (if x \<in> set (strs_of h (addrs_list ss)) then None else strs h x))"
proof (induction fuel arbitrary: p h ss)
  case 0
  then have "ss = []" by (cases ss rule: need.cases) simp_all
  with 0 have "p = None" by (cases p) simp_all
  then show ?case using \<open>ss = []\<close> by simp
next
  case (Suc fuel)
  show ?case
  proof (cases p)
    case None
    with Suc.prems have "ss = []" by simp
    then show ?thesis using None by simp
  next
    case (Some c)
    with Suc.prems obtain b ks rest where ss: "ss = Sh b ks # rest"
      by (cases ss) (auto intro: shape.exhaust)
    with Suc.prems Some obtain n where bc: "b = c" and n: "nodes h c = Some n"
      and ok: "owns h (owned_child n) ks" and orest: "owns h (nxt n) rest"
      by (auto split: option.splits)
    let ?A = "addrs_list ks" and ?B = "addrs_list rest"
    from Suc.prems ss have dk: "distinct ?A" and dr: "distinct ?B"
      and cnk: "b \<notin> set ?A" and cnr: "b \<notin> set ?B"
      and disj: "set ?A \<inter> set ?B = {}"
      and lk: "need ks \<le> fuel" and lr: "need rest \<le> fuel"
      by auto
    have sall: "strs_of h (addrs_list ss) = node_strs n @ strs_of h ?A @ strs_of h ?B"
      by (simp add: ss bc strs_of_Cons strs_of_append n)
    from Suc.prems(3) have dn: "distinct (node_strs n)" and dsk: "distinct (strs_of h ?A)"
      and dsr: "distinct (strs_of h ?B)"
      and nk: "set (node_strs n) \<inter> set (strs_of h ?A) = {}"
      and nr: "set (node_strs n) \<inter> set (strs_of h ?B) = {}"
      and kr: "set (strs_of h ?A) \<inter> set (strs_of h ?B) = {}"
      unfolding sall by auto
    from Suc.prems(4) have ln: "\<forall>x\<in>set (node_strs n). strs h x \<noteq> None"
      and lsk: "\<forall>x\<in>set (strs_of h ?A). strs h x \<noteq> None"
      and lsr: "\<forall>x\<in>set (strs_of h ?B). strs h x \<noteq> None"
      unfolding sall by auto
    have "\<exists>h1. (if type n AND cJSON_IsReference = 0 \<and> child n \<noteq> None
                then cJSON_Delete fuel (child n) h else Inr h) = Inr h1 \<and>
               (\<forall>a. nodes h1 a = (if a \<in> set ?A then None else nodes h a)) \<and>
               (\<forall>x. strs h1 x = (if x \<in> set (strs_of h ?A) then None else strs h x))"
    proof (cases "type n AND cJSON_IsReference = 0 \<and> child n \<noteq> None")
      case True
      then have "owned_child n = child n" by (simp add: owned_child_def)
      with ok Suc.IH[of h "child n" ks] dk dsk lsk lk True show ?thesis by simp
    next
      case False
      then have "owned_child n = None" by (auto simp: owned_child_def)
      with ok have "ks = []" by simp
      with False show ?thesis by simp
    qed
    then obtain h1 where h1: "(if type n AND cJSON_IsReference = 0 \<and> child n \<noteq> None
                                then cJSON_Delete fuel (child n) h else Inr h) = Inr h1"
      and n1: "\<And>a. nodes h1 a = (if a \<in> set ?A then None else nodes h a)"
      and s1: "\<And>x. strs h1 x = (if x \<in> set (strs_of h ?A) then None else strs h x)"
      by blast
    have c1: "nodes h1 c = Some n" using n1[of c] cnk bc n by simp
    have ln1: "\<forall>x\<in>set (node_strs n). strs h1 x \<noteq> None"
      using ln nk s1 by auto
    from free_node_strs[OF dn ln1] obtain h2 h3 where
      e2: "(case valuestring n of
              Some s \<Rightarrow> if type n AND cJSON_IsReference = 0 then free_str s h1 else Inr h1
            | None \<Rightarrow> Inr h1) = Inr h2"
      and e3: "(case string n of Some k \<Rightarrow> free_str k h2 | None \<Rightarrow> Inr h2) = Inr h3"
      and n3: "nodes h3 = nodes h1"
      and s3: "\<And>x. strs h3 x = (if x \<in> set (node_strs n) then None else strs h1 x)"
      by blast
    define h4 where "h4 = h3\<lparr>nodes := (nodes h3)(c := None), freed := c # freed h3\<rparr>"
    have e4: "free_node c h3 = Inr h4"
      using c1 n3 by (simp add: free_node_def h4_def)
    have n4: "\<And>a. nodes h4 a = (if a = c \<or> a \<in> set ?A then None else nodes h a)"
      using n3 n1 by (simp add: h4_def)
    have s4: "\<And>x. strs h4 x =
                (if x \<in> set (node_strs n) \<or> x \<in> set (strs_of h ?A) then None else strs h x)"
      using s3 s1 by (simp add: h4_def)
    have agree: "\<And>a. a \<in> set ?B \<Longrightarrow> nodes h4 a = nodes h a"
      using n4 disj cnr bc by auto
    have "owns h4 (nxt n) rest = owns h (nxt n) rest"
      by (rule owns_frame) (rule agree)
    with orest have o4: "owns h4 (nxt n) rest" by simp
    have sf: "strs_of h4 ?B = strs_of h ?B"
      by (rule strs_of_frame) (rule agree)
    have d4: "distinct (strs_of h4 ?B)" using dsr sf by simp
    have l4: "\<forall>x\<in>set (strs_of h4 ?B). strs h4 x \<noteq> None"
      using lsr nr kr s4 sf by auto
    from Suc.IH[OF o4 dr d4 l4 lr] obtain h' where
      h': "cJSON_Delete fuel (nxt n) h4 = Inr h'"
      and n': "\<And>a. nodes h' a = (if a \<in> set ?B then None else nodes h4 a)"
      and s': "\<And>x. strs h' x = (if x \<in> set (strs_of h4 ?B) then None else strs h4 x)"
      by blast
    have "cJSON_Delete (Suc fuel) p h = Inr h'"
      using Some n h1 c1 e2 e3 e4 h' by (simp add: rd_node_def)
    moreover have "\<forall>a. nodes h' a = (if a \<in> set (addrs_list ss) then None else nodes h a)"
      using n' n4 ss bc by auto
    moreover have "\<forall>x. strs h' x =
                     (if x \<in> set (strs_of h (addrs_list ss)) then None else strs h x)"
      using s' s4 sf unfolding sall by auto
    ultimately show ?thesis by blast
  qed
qed

lemma mallocD:
  "cJSON_malloc h = (r, h1) \<Longrightarrow>
   nodes h1 = nodes h \<and> strs h1 = strs h \<and>
   (case r of None \<Rightarrow> brk h1 = brk h | Some a \<Rightarrow> a = brk h \<and> brk h1 = brk h + 1)"
  by (auto simp: cJSON_malloc_def split: list.splits if_splits)

lemma filled_member_of_filled:
  assumes "filled d h item n h'" and "string n = None"
  shows "filled_member d h item n h'"
proof -
  from assms(1) obtain n' ks where f: "nodes h' item = Some n'" "nxt n' = nxt n"
    "string n' = string n" "plain n'" "owns h' (child n') ks" "need ks \<le> d"
    "ext h h' {item} (addrs_list ks) (vstr n' @ strs_of h' (addrs_list ks))"
    unfolding filled_def by blast
  have "node_strs n' = vstr n'"
    using f(3,4) assms(2) by (simp add: plain_node_strs)
  with f show ?thesis unfolding filled_member_def by metis
qed

lemma member_spec_of_item_spec: "item_spec d pv \<Longrightarrow> member_spec d pv"
  unfolding item_spec_def member_spec_def
  by (blast intro: filled_member_of_filled)

lemma filled_mono: "filled d h item n h' \<Longrightarrow> d \<le> e \<Longrightarrow> filled e h item n h'"
  unfolding filled_def by (meson le_trans)

lemma item_spec_mono: "item_spec d pv \<Longrightarrow> d \<le> e \<Longrightarrow> item_spec e pv"
  unfolding item_spec_def by (blast intro: filled_mono)

text \<open>A call that changes no more than scalar fields of the node.\<close>

lemma filled_leaf:
  assumes ok: "heap_ok h" and n: "nodes h item = Some n"
    and n': "nodes h' item = Some n'"
    and fr: "\<forall>a. a \<noteq> item \<longrightarrow> nodes h' a = nodes h a"
    and st: "\<forall>x. strs h' x = strs h x" and b: "brk h' = brk h \<or> brk h' = brk h + 1"
    and k: "nxt n' = nxt n" "string n' = string n" "plain n'" "child n' = None"
      "valuestring n' = None"
  shows "filled d h item n h'"
proof -
  have lt: "item < brk h" using ok n by (rule heap_ok_live)
  have ok': "heap_ok h'"
    unfolding heap_ok_def
  proof (intro allI impI)
    fix a assume "brk h' \<le> a"
    with b have a: "brk h \<le> a" by auto
    with lt have "a \<noteq> item" by simp
    with fr st a ok show "nodes h' a = None \<and> strs h' a = None" by (simp add: heap_ok_def)
  qed
  have e: "ext h h' {item} [] []"
    using ok' b fr st by (auto simp: ext_def)
  have "owns h' (child n') []" using k by simp
  moreover have "vstr n' @ strs_of h' (addrs_list []) = []" using k by (simp add: vstr_def)
  ultimately show ?thesis
    unfolding filled_def using n' k e by (intro exI[of _ n'] exI[of _ "[]"]) simp
qed

lemma plain_types [simp]:
  "plain (n\<lparr>type := cJSON_NULL\<rparr>)" "plain (n\<lparr>type := cJSON_False\<rparr>)"
  "plain (n\<lparr>type := cJSON_True\<rparr>)" "plain (n\<lparr>type := cJSON_Number\<rparr>)"
  "plain (n\<lparr>type := cJSON_String\<rparr>)" "plain (n\<lparr>type := cJSON_Array\<rparr>)"
  "plain (n\<lparr>type := cJSON_Object\<rparr>)"
  by (simp_all add: plain_def cJSON_NULL_def cJSON_False_def cJSON_True_def cJSON_Number_def
        cJSON_String_def cJSON_Array_def cJSON_Object_def cJSON_IsReference_def)

lemma plain_upd [simp]:
  "plain (n\<lparr>nxt := a\<rparr>) = plain n" "plain (n\<lparr>prev := a\<rparr>) = plain n"
  "plain (n\<lparr>child := a\<rparr>) = plain n" "plain (n\<lparr>valuestring := b\<rparr>) = plain n"
  "plain (n\<lparr>string := b\<rparr>) = plain n" "plain (n\<lparr>valueint := i\<rparr>) = plain n"
  "plain (n\<lparr>valuedouble := x\<rparr>) = plain n"
  by (simp_all add: plain_def)

lemma parse_number_spec: "item_spec d parse_number"
  unfolding item_spec_def
proof (intro allI impI)
  fix item and v :: "char list" and h r h' n
  assume ok: "heap_ok h" and n: "nodes h item = Some n" and cn: "child n = None"
    and vn: "valuestring n = None" and pn: "plain n"
    and eq: "parse_number item v h = Inr (r, h')"
  from eq n obtain x i where
    h': "h' = h\<lparr>nodes := (nodes h)(item \<mapsto> n\<lparr>valuedouble := x, valueint := i,
                                                 type := cJSON_Number\<rparr>)\<rparr>"
    unfolding parse_number_def
    by (auto elim!: bndE dest!: upd_nodeD split: prod.splits)
  show "filled d h item n h'"
    by (rule filled_leaf[OF ok n, where n' = "n\<lparr>valuedouble := x, valueint := i,
                                                 type := cJSON_Number\<rparr>"])
       (simp_all add: h' cn vn)
qed

text \<open>
  \<open>parse_string\<close> either leaves every node and every buffer as it was, or stores the
  text in a new buffer and makes the node a string.
\<close>

lemma parse_string_effect:
  assumes ok: "heap_ok h" and n: "nodes h item = Some n"
    and eq: "parse_string item str h = Inr (r, h')"
  shows "(nodes h' = nodes h \<and> (\<forall>x. strs h' x = strs h x) \<and>
          (brk h' = brk h \<or> brk h' = brk h + 1)) \<or>
         (nodes h' = (nodes h)(item \<mapsto> n\<lparr>type := cJSON_String,
                                           valuestring := Some (brk h)\<rparr>) \<and>
          (\<forall>x. x \<noteq> brk h \<longrightarrow> strs h' x = strs h x) \<and> strs h' (brk h) \<noteq> None \<and>
          brk h' = brk h + 1)"
  using eq n heap_ok_fresh[OF ok] unfolding parse_string_def
  by (auto elim!: bndE dest!: upd_nodeD mallocD simp: free_str_def
           split: if_splits prod.splits option.splits)

lemma filled_text:
  assumes ok: "heap_ok h" and n: "nodes h item = Some n" and cn: "child n = None"
    and pn: "plain n"
    and nd: "nodes h' = (nodes h)(item \<mapsto> n\<lparr>type := cJSON_String,
                                                valuestring := Some (brk h)\<rparr>)"
    and st: "\<forall>x. x \<noteq> brk h \<longrightarrow> strs h' x = strs h x" and lv: "strs h' (brk h) \<noteq> None"
    and b: "brk h' = brk h + 1"
  shows "filled d h item n h'"
proof -
  let ?n = "n\<lparr>type := cJSON_String, valuestring := Some (brk h)\<rparr>"
  have lt: "item < brk h" using ok n by (rule heap_ok_live)
  have ok': "heap_ok h'"
    unfolding heap_ok_def
  proof (intro allI impI)
    fix a assume "brk h' \<le> a"
    with b have a: "brk h < a" by auto
    with lt have "a \<noteq> item" by simp
    with nd st a ok show "nodes h' a = None \<and> strs h' a = None" by (simp add: heap_ok_def)
  qed
  have e: "ext h h' {item} [] [brk h]"
    using ok' b nd st lv by (auto simp: ext_def)
  have "owns h' (child ?n) []" using cn by simp
  moreover have "vstr ?n @ strs_of h' (addrs_list []) = [brk h]" by (simp add: vstr_def)
  moreover have "nodes h' item = Some ?n" using nd by simp
  ultimately show ?thesis
    unfolding filled_def using e by (intro exI[of _ ?n] exI[of _ "[]"]) simp
qed

lemma filled_same:
  assumes ok: "heap_ok h" and n: "nodes h item = Some n" and cn: "child n = None"
    and vn: "valuestring n = None" and pn: "plain n"
    and nd: "nodes h' = nodes h" and st: "\<forall>x. strs h' x = strs h x"
    and b: "brk h' = brk h \<or> brk h' = brk h + 1"
  shows "filled d h item n h'"
  by (rule filled_leaf[OF ok n, where n' = n]) (use nd n st b cn vn pn in simp_all)

lemma parse_string_spec: "item_spec d parse_string"
  unfolding item_spec_def
proof (intro allI impI)
  fix item and v :: "char list" and h r h' n
  assume ok: "heap_ok h" and n: "nodes h item = Some n" and cn: "child n = None"
    and vn: "valuestring n = None" and pn: "plain n"
    and eq: "parse_string item v h = Inr (r, h')"
  from parse_string_effect[OF ok n eq] show "filled d h item n h'"
  proof
    assume "nodes h' = nodes h \<and> (\<forall>x. strs h' x = strs h x) \<and>
            (brk h' = brk h \<or> brk h' = brk h + 1)"
    then show ?thesis using filled_same[OF ok n cn vn pn] by blast
  next
    assume "nodes h' = (nodes h)(item \<mapsto> n\<lparr>type := cJSON_String,
                                             valuestring := Some (brk h)\<rparr>) \<and>
            (\<forall>x. x \<noteq> brk h \<longrightarrow> strs h' x = strs h x) \<and> strs h' (brk h) \<noteq> None \<and>
            brk h' = brk h + 1"
    then show ?thesis using filled_text[OF ok n cn pn] by blast
  qed
qed

lemma parse_value_body_cases:
  assumes eq: "parse_value_body pa po item v h = Inr (r, h')" and n: "nodes h item = Some n"
  obtains
      (same) "nodes h' = nodes h" "strs h' = strs h" "brk h' = brk h"
    | (scalar) n' where
        "h' = h\<lparr>nodes := (nodes h)(item \<mapsto> n')\<rparr>"
        "nxt n' = nxt n" "string n' = string n" "child n' = child n"
        "valuestring n' = valuestring n" "plain n'"
    | (str) w where "parse_string item w h = Inr (r, h')"
    | (num) w where "parse_number item w h = Inr (r, h')"
    | (arr) w where "pa item w h = Inr (r, h')"
    | (obj) w where "po item w h = Inr (r, h')"
  using eq n unfolding parse_value_body_def
  by (cases v) (auto elim!: bndE dest!: upd_nodeD split: if_splits)

lemma parse_value_body_spec:
  assumes pa: "item_spec d pa" and po: "item_spec d po"
  shows "item_spec d (parse_value_body pa po)"
  unfolding item_spec_def
proof (intro allI impI)
  fix item and v :: "char list option" and h r h' n
  assume ok: "heap_ok h" and n: "nodes h item = Some n" and cn: "child n = None"
    and vn: "valuestring n = None" and pn: "plain n"
    and eq: "parse_value_body pa po item v h = Inr (r, h')"
  from eq n show "filled d h item n h'"
  proof (cases rule: parse_value_body_cases)
    case same
    then show ?thesis using filled_same[OF ok n cn vn pn] by simp
  next
    case (scalar n')
    show ?thesis
      by (rule filled_leaf[OF ok n, where n' = n']) (use scalar cn vn in auto)
  next
    case (str w)
    with parse_string_spec[of d] ok n cn vn pn show ?thesis
      unfolding item_spec_def by blast
  next
    case (num w)
    with parse_number_spec[of d] ok n cn vn pn show ?thesis
      unfolding item_spec_def by blast
  next
    case (arr w)
    with pa ok n cn vn pn show ?thesis unfolding item_spec_def by blast
  next
    case (obj w)
    with po ok n cn vn pn show ?thesis unfolding item_spec_def by blast
  qed
qed

lemma node_strs_links [simp]:
  "node_strs (n\<lparr>nxt := p\<rparr>) = node_strs n" "node_strs (n\<lparr>prev := p\<rparr>) = node_strs n"
  "node_strs (n\<lparr>child := p\<rparr>) = node_strs n"
  by (simp_all add: node_strs_def split: option.splits)

lemma appended_refl:
  assumes "heap_ok h" and "nodes h c = Some m" and "nxt m = None"
  shows "appended d h c m h"
proof -
  have "m\<lparr>nxt := None\<rparr> = m" using assms(3) by (cases m) simp
  then have "nodes h c = Some (m\<lparr>nxt := None\<rparr>)" using assms(2) by simp
  moreover have "owns h None []" by simp
  moreover have "ext h h {c} (addrs_list []) (strs_of h (addrs_list []))"
    using ext_refl[OF assms(1)] by simp
  ultimately show ?thesis unfolding appended_def
    by (intro exI[of _ None] exI[of _ "[]"]) simp
qed

text \<open>
  A new node \<open>c\<close>, linked from the node \<open>q\<close>, then filled, then followed by what the
  loop appends: \<open>c\<close> owns the chain so built.
\<close>

lemma kids_built:
  assumes e03: "ext hp h3 {q} [c] []"
    and kid: "filled_member d h3 c n0 h4" and n0: "nxt n0 = None"
    and lp: "loop_spec d loop"
    and rest: "h' = h4 \<or> (\<exists>w r. loop c w h4 = Inr (r, h'))"
  shows "\<exists>ks. owns h' (Some c) ks \<and> need ks \<le> Suc d \<and>
              ext hp h' {q} (addrs_list ks) (strs_of h' (addrs_list ks)) \<and>
              (\<forall>a. a \<noteq> c \<longrightarrow> a < brk h3 \<longrightarrow> nodes h' a = nodes h3 a)"
proof -
  from kid obtain n1 ks1 where n1: "nodes h4 c = Some n1" and nx: "nxt n1 = nxt n0"
    and p1: "plain n1" and o1: "owns h4 (child n1) ks1" and d1: "need ks1 \<le> d"
    and e34: "ext h3 h4 {c} (addrs_list ks1) (node_strs n1 @ strs_of h4 (addrs_list ks1))"
    unfolding filled_member_def by blast
  have ok4: "heap_ok h4" using e34 by (simp add: ext_def)
  have nn: "nxt n1 = None" using nx n0 by simp
  from rest have "appended d h4 c n1 h'"
  proof
    assume "h' = h4"
    then show ?thesis using appended_refl[OF ok4 n1 nn] by simp
  next
    assume "\<exists>w r. loop c w h4 = Inr (r, h')"
    then obtain w r where "loop c w h4 = Inr (r, h')" by blast
    with lp ok4 n1 nn show ?thesis unfolding loop_spec_def by blast
  qed
  then obtain p rs where c': "nodes h' c = Some (n1\<lparr>nxt := p\<rparr>)" and o2: "owns h' p rs"
    and d2: "need rs \<le> d"
    and e4: "ext h4 h' {c} (addrs_list rs) (strs_of h' (addrs_list rs))"
    unfolding appended_def by blast
  let ?A1 = "addrs_list ks1" and ?Ar = "addrs_list rs"
  have clt: "c < brk h3" using e03 by (simp add: ext_def)
  have b34: "brk h3 \<le> brk h4" using e34 by (simp add: ext_def)
  have fr1: "nodes h' a = nodes h4 a" if a: "a \<in> set ?A1" for a
  proof -
    from a e34 have "brk h3 \<le> a" and a4: "a < brk h4" by (auto simp: ext_def)
    with clt have "a \<noteq> c" by simp
    moreover have "a \<notin> set ?Ar" using e4 a4 by (auto simp: ext_def)
    ultimately show ?thesis using e4 by (simp add: ext_def)
  qed
  have "owns h' (child n1) ks1 = owns h4 (child n1) ks1"
    by (rule owns_frame) (rule fr1)
  with o1 have o1': "owns h' (child n1) ks1" by simp
  have s1: "strs_of h' ?A1 = strs_of h4 ?A1" by (rule strs_of_frame) (rule fr1)
  let ?ks = "Sh c ks1 # rs"
  have ow: "owns h' (Some c) ?ks" using c' o1' o2 p1 by (simp add: plain_child)
  have nd: "need ?ks \<le> Suc d" using d1 d2 by simp
  have so: "strs_of h' (addrs_list ?ks) = ([] @ (node_strs n1 @ strs_of h4 ?A1)) @ strs_of h' ?Ar"
    using c' s1 by (simp add: strs_of_Cons strs_of_append)
  have al: "addrs_list ?ks = ([c] @ ?A1) @ ?Ar" by simp
  have e: "ext hp h' {q} (([c] @ ?A1) @ ?Ar)
             (([] @ (node_strs n1 @ strs_of h4 ?A1)) @ strs_of h' ?Ar)"
    by (rule ext_trans[OF ext_trans[OF e03 e34] e4]) simp_all
  have fr: "\<forall>a. a \<noteq> c \<longrightarrow> a < brk h3 \<longrightarrow> nodes h' a = nodes h3 a"
  proof (intro allI impI)
    fix a assume ac: "a \<noteq> c" and a3: "a < brk h3"
    have "a \<notin> set ?A1" using e34 a3 by (auto simp: ext_def)
    then have 1: "nodes h4 a = nodes h3 a" using e34 ac by (simp add: ext_def)
    have "a \<notin> set ?Ar" using e4 a3 b34 by (auto simp: ext_def)
    then have "nodes h' a = nodes h4 a" using e4 ac by (simp add: ext_def)
    with 1 show "nodes h' a = nodes h3 a" by simp
  qed
  show ?thesis
    using ow nd e fr unfolding so[symmetric] al[symmetric] by blast
qed

lemma plain_zero_item [simp]: "plain zero_item"
  by (simp add: plain_def zero_item_def)

text \<open>The first child of a container: allocated and stored in \<open>child\<close>.\<close>

lemma first_link:
  assumes ok: "heap_ok h" and n: "nodes h item = Some n"
    and u1: "upd_node h item f = Inr h1"
    and ni: "cJSON_New_Item h1 = (Some c, h2)"
    and u3: "upd_node h2 item (\<lambda>n. n\<lparr>child := Some c\<rparr>) = Inr h3"
  shows "ext h h3 {item} [c] [] \<and> heap_ok h3 \<and> nodes h3 c = Some zero_item \<and>
         nodes h3 item = Some ((f n)\<lparr>child := Some c\<rparr>) \<and> item \<noteq> c \<and> item < brk h3"
proof -
  have lt: "item < brk h" using ok n by (rule heap_ok_live)
  from upd_nodeD[OF u1] n have h1: "h1 = h\<lparr>nodes := (nodes h)(item \<mapsto> f n)\<rparr>" by auto
  from New_ItemD[OF ni] h1 have c: "c = brk h" and b2: "brk h2 = brk h + 1"
    and n2: "nodes h2 = (nodes h)(item \<mapsto> f n, c \<mapsto> zero_item)" and s2: "strs h2 = strs h"
    by auto
  have ic: "item \<noteq> c" using lt c by simp
  from upd_nodeD[OF u3] n2 ic
  have h3: "h3 = h2\<lparr>nodes := (nodes h2)(item \<mapsto> (f n)\<lparr>child := Some c\<rparr>)\<rparr>" by auto
  have ok3: "heap_ok h3"
    using ok lt unfolding heap_ok_def h3 by (auto simp: n2 s2 b2 c)
  have "ext h h3 {item} [c] []"
    unfolding ext_def using ok3 by (auto simp: h3 n2 s2 b2 c)
  then show ?thesis using ok3 ic lt by (simp add: h3 n2 b2)
qed

text \<open>A further node of a chain: allocated and linked behind \<open>chd\<close>.\<close>

lemma next_link:
  assumes ok: "heap_ok h" and m: "nodes h chd = Some m"
    and ni: "cJSON_New_Item h = (Some c, h1)"
    and u2: "upd_node h1 chd (\<lambda>n. n\<lparr>nxt := Some c\<rparr>) = Inr h2"
    and u3: "upd_node h2 c (\<lambda>n. n\<lparr>prev := Some chd\<rparr>) = Inr h3"
  shows "ext h h3 {chd} [c] [] \<and> heap_ok h3 \<and>
         nodes h3 c = Some (zero_item\<lparr>prev := Some chd\<rparr>) \<and>
         nodes h3 chd = Some (m\<lparr>nxt := Some c\<rparr>) \<and> chd \<noteq> c \<and> chd < brk h3"
proof -
  have lt: "chd < brk h" using ok m by (rule heap_ok_live)
  from New_ItemD[OF ni] have c: "c = brk h" and b1: "brk h1 = brk h + 1"
    and n1: "nodes h1 = (nodes h)(c \<mapsto> zero_item)" and s1: "strs h1 = strs h"
    by auto
  have ic: "chd \<noteq> c" using lt c by simp
  from upd_nodeD[OF u2] n1 ic m
  have h2: "h2 = h1\<lparr>nodes := (nodes h1)(chd \<mapsto> m\<lparr>nxt := Some c\<rparr>)\<rparr>" by auto
  from upd_nodeD[OF u3] h2 n1 ic
  have h3: "h3 = h2\<lparr>nodes := (nodes h2)(c \<mapsto> zero_item\<lparr>prev := Some chd\<rparr>)\<rparr>" by auto
  have ok3: "heap_ok h3"
    using ok lt unfolding heap_ok_def h3 h2 by (auto simp: n1 s1 b1 c)
  have "ext h h3 {chd} [c] []"
    unfolding ext_def using ok3 by (auto simp: h3 h2 n1 s1 b1 c)
  then show ?thesis using ok3 ic lt by (simp add: h3 h2 n1 b1)
qed

lemma parse_array_body_cases:
  assumes eq: "parse_array_body pv loop item value h = Inr (r, h')"
  obtains
      (bad) "h' = h\<lparr>ep := Some value\<rparr>"
    | (empty) "upd_node h item (\<lambda>n. n\<lparr>type := cJSON_Array\<rparr>) = Inr h'"
    | (nomem) h1 h2 where "upd_node h item (\<lambda>n. n\<lparr>type := cJSON_Array\<rparr>) = Inr h1"
        "cJSON_New_Item h1 = (None, h2)" "upd_node h2 item (\<lambda>n. n\<lparr>child := None\<rparr>) = Inr h'"
    | (one) h1 h2 h3 c w r4 where "upd_node h item (\<lambda>n. n\<lparr>type := cJSON_Array\<rparr>) = Inr h1"
        "cJSON_New_Item h1 = (Some c, h2)"
        "upd_node h2 item (\<lambda>n. n\<lparr>child := Some c\<rparr>) = Inr h3"
        "pv c w h3 = Inr (r4, h')"
    | (more) h1 h2 h3 c w r4 h4 w4 where
        "upd_node h item (\<lambda>n. n\<lparr>type := cJSON_Array\<rparr>) = Inr h1"
        "cJSON_New_Item h1 = (Some c, h2)"
        "upd_node h2 item (\<lambda>n. n\<lparr>child := Some c\<rparr>) = Inr h3"
        "pv c w h3 = Inr (r4, h4)" "loop c w4 h4 = Inr (r, h')"
  using eq unfolding parse_array_body_def
  by (auto elim!: bndE split: if_splits option.splits prod.splits)

lemma zero_item_fields [simp]:
  "child zero_item = None" "valuestring zero_item = None" "string zero_item = None"
  "nxt zero_item = None"
  by (simp_all add: zero_item_def)

text \<open>A container whose first child has been allocated, filled and followed by the loop.\<close>

lemma container_filled:
  assumes ok: "heap_ok h" and n: "nodes h item = Some n"
    and f: "nxt (f n) = nxt n" "string (f n) = string n" "plain (f n)" "valuestring (f n) = None"
    and u1: "upd_node h item f = Inr h1"
    and ni: "cJSON_New_Item h1 = (Some c, h2)"
    and u3: "upd_node h2 item (\<lambda>n. n\<lparr>child := Some c\<rparr>) = Inr h3"
    and pm: "member_spec d pm" and run: "pm c w h3 = Inr (r4, h4)"
    and lp: "loop_spec d loop"
    and rest: "h' = h4 \<or> (\<exists>w r. loop c w h4 = Inr (r, h'))"
  shows "filled (Suc d) h item n h'"
proof -
  from first_link[OF ok n u1 ni u3] have e03: "ext h h3 {item} [c] []" and ok3: "heap_ok h3"
    and c3: "nodes h3 c = Some zero_item"
    and i3: "nodes h3 item = Some ((f n)\<lparr>child := Some c\<rparr>)"
    and ic: "item \<noteq> c" and lt: "item < brk h3"
    by simp_all
  have kid: "filled_member d h3 c zero_item h4"
    using pm ok3 c3 run unfolding member_spec_def by (metis plain_zero_item zero_item_fields(1-3))
  from kids_built[OF e03 kid _ lp rest] obtain ks where
    ow: "owns h' (Some c) ks" and nd: "need ks \<le> Suc d"
    and e: "ext h h' {item} (addrs_list ks) (strs_of h' (addrs_list ks))"
    and fr: "\<forall>a. a \<noteq> c \<longrightarrow> a < brk h3 \<longrightarrow> nodes h' a = nodes h3 a"
    by auto
  let ?n = "(f n)\<lparr>child := Some c\<rparr>"
  have i': "nodes h' item = Some ?n" using fr ic lt i3 by simp
  have "vstr ?n = []" using f by (simp add: vstr_def)
  then show ?thesis
    unfolding filled_def using i' f ow nd e
    by (intro exI[of _ ?n] exI[of _ ks]) simp
qed

lemma chain_appended:
  assumes ok: "heap_ok h" and m: "nodes h chd = Some m" and nm: "nxt m = None"
    and ni: "cJSON_New_Item h = (Some c, h1)"
    and u2: "upd_node h1 chd (\<lambda>n. n\<lparr>nxt := Some c\<rparr>) = Inr h2"
    and u3: "upd_node h2 c (\<lambda>n. n\<lparr>prev := Some chd\<rparr>) = Inr h3"
    and pm: "member_spec d pm" and run: "pm c w h3 = Inr (r4, h4)"
    and lp: "loop_spec d loop"
    and rest: "h' = h4 \<or> (\<exists>w r. loop c w h4 = Inr (r, h'))"
  shows "appended (Suc d) h chd m h'"
proof -
  let ?z = "zero_item\<lparr>prev := Some chd\<rparr>"
  from next_link[OF ok m ni u2 u3] have e03: "ext h h3 {chd} [c] []" and ok3: "heap_ok h3"
    and c3: "nodes h3 c = Some ?z"
    and i3: "nodes h3 chd = Some (m\<lparr>nxt := Some c\<rparr>)"
    and ic: "chd \<noteq> c" and lt: "chd < brk h3"
    by simp_all
  have z: "child ?z = None" "valuestring ?z = None" "string ?z = None" "plain ?z" "nxt ?z = None"
    by simp_all
  have kid: "filled_member d h3 c ?z h4"
    using pm ok3 c3 run z unfolding member_spec_def by blast
  from kids_built[OF e03 kid z(5) lp rest] obtain ks where
    ow: "owns h' (Some c) ks" and nd: "need ks \<le> Suc d"
    and e: "ext h h' {chd} (addrs_list ks) (strs_of h' (addrs_list ks))"
    and fr: "\<forall>a. a \<noteq> c \<longrightarrow> a < brk h3 \<longrightarrow> nodes h' a = nodes h3 a"
    by auto
  have i': "nodes h' chd = Some (m\<lparr>nxt := Some c\<rparr>)" using fr ic lt i3 by simp
  show ?thesis
    unfolding appended_def using i' ow nd e
    by (intro exI[of _ "Some c"] exI[of _ ks]) simp
qed

lemma parse_array_body_spec:
  assumes pv: "member_spec d pv" and lp: "loop_spec d loop"
  shows "item_spec (Suc d) (parse_array_body pv loop)"
  unfolding item_spec_def
proof (intro allI impI)
  fix item and v :: "char list" and h r h' n
  assume ok: "heap_ok h" and n: "nodes h item = Some n" and cn: "child n = None"
    and vn: "valuestring n = None" and pn: "plain n"
    and eq: "parse_array_body pv loop item v h = Inr (r, h')"
  let ?f = "\<lambda>n. n\<lparr>type := cJSON_Array\<rparr>"
  have f: "nxt (?f n) = nxt n" "string (?f n) = string n" "plain (?f n)"
    "valuestring (?f n) = None" using vn by simp_all
  from eq show "filled (Suc d) h item n h'"
  proof (cases rule: parse_array_body_cases)
    case bad
    then show ?thesis using filled_same[OF ok n cn vn pn] by simp
  next
    case empty
    from upd_nodeD[OF empty] n have "h' = h\<lparr>nodes := (nodes h)(item \<mapsto> ?f n)\<rparr>" by auto
    then show ?thesis
      by (intro filled_leaf[OF ok n, where n' = "?f n"]) (use cn vn in auto)
  next
    case (nomem h1 h2)
    from upd_nodeD[OF nomem(1)] n have h1: "h1 = h\<lparr>nodes := (nodes h)(item \<mapsto> ?f n)\<rparr>"
      by auto
    from New_ItemD[OF nomem(2)] have h2: "nodes h2 = nodes h1" "strs h2 = strs h1"
      "brk h2 = brk h1" by auto
    from upd_nodeD[OF nomem(3)] h2 h1
    have "h' = h2\<lparr>nodes := (nodes h2)(item \<mapsto> (?f n)\<lparr>child := None\<rparr>)\<rparr>" by auto
    then show ?thesis
      by (intro filled_leaf[OF ok n, where n' = "(?f n)\<lparr>child := None\<rparr>"])
         (use h1 h2 vn in auto)
  next
    case (one h1 h2 h3 c w r4)
    show ?thesis
      by (rule container_filled[OF ok n f one(1) one(2) one(3) pv one(4) lp]) simp
  next
    case (more h1 h2 h3 c w r4 h4 w4)
    show ?thesis
      by (rule container_filled[OF ok n f more(1) more(2) more(3) pv more(4) lp])
         (use more(5) in blast)
  qed
qed

lemma appended_same:
  assumes ok: "heap_ok h" and m: "nodes h c = Some m" and nm: "nxt m = None"
    and same: "nodes h' = nodes h" "strs h' = strs h" "brk h' = brk h"
  shows "appended d h c m h'"
proof -
  have ok': "heap_ok h'" using ok same by (simp add: heap_ok_def)
  have "m\<lparr>nxt := None\<rparr> = m" using nm by (cases m) simp
  then have "nodes h' c = Some (m\<lparr>nxt := None\<rparr>)" using m same by simp
  moreover have "owns h' None []" by simp
  moreover have "ext h h' {c} (addrs_list []) (strs_of h' (addrs_list []))"
    using ok' same by (simp add: ext_def)
  ultimately show ?thesis unfolding appended_def
    by (intro exI[of _ None] exI[of _ "[]"]) simp
qed

lemma array_loop_body_cases:
  assumes eq: "array_loop_body pv loop chd value h = Inr (r, h')"
  obtains
      (bad) "h' = h\<lparr>ep := Some value\<rparr>"
    | (close) "h' = h"
    | (nomem) "cJSON_New_Item h = (None, h')"
    | (one) h1 h2 h3 c w r4 where "cJSON_New_Item h = (Some c, h1)"
        "upd_node h1 chd (\<lambda>n. n\<lparr>nxt := Some c\<rparr>) = Inr h2"
        "upd_node h2 c (\<lambda>n. n\<lparr>prev := Some chd\<rparr>) = Inr h3"
        "pv c w h3 = Inr (r4, h')"
    | (more) h1 h2 h3 c w r4 h4 w4 where "cJSON_New_Item h = (Some c, h1)"
        "upd_node h1 chd (\<lambda>n. n\<lparr>nxt := Some c\<rparr>) = Inr h2"
        "upd_node h2 c (\<lambda>n. n\<lparr>prev := Some chd\<rparr>) = Inr h3"
        "pv c w h3 = Inr (r4, h4)" "loop c w4 h4 = Inr (r, h')"
  using eq unfolding array_loop_body_def
  by (auto elim!: bndE split: if_splits option.splits prod.splits)

lemma loop_body_spec_aux:
  assumes ok: "heap_ok h" and m: "nodes h chd = Some m" and nm: "nxt m = None"
  shows "appended d h chd m (h\<lparr>ep := e\<rparr>)" and "appended d h chd m h"
    and "cJSON_New_Item h = (None, h') \<Longrightarrow> appended d h chd m h'"
proof -
  show "appended d h chd m (h\<lparr>ep := e\<rparr>)"
    by (rule appended_same[OF ok m nm]) simp_all
  show "appended d h chd m h" by (rule appended_refl[OF ok m nm])
  assume "cJSON_New_Item h = (None, h')"
  from New_ItemD[OF this] show "appended d h chd m h'"
    by (intro appended_same[OF ok m nm]) auto
qed

lemma array_loop_body_spec:
  assumes pv: "member_spec d pv" and lp: "loop_spec d loop"
  shows "loop_spec (Suc d) (array_loop_body pv loop)"
  unfolding loop_spec_def
proof (intro allI impI)
  fix chd and v :: "char list" and h r h' m
  assume ok: "heap_ok h" and m: "nodes h chd = Some m" and nm: "nxt m = None"
    and eq: "array_loop_body pv loop chd v h = Inr (r, h')"
  note aux = loop_body_spec_aux[OF ok m nm]
  from eq show "appended (Suc d) h chd m h'"
  proof (cases rule: array_loop_body_cases)
    case bad
    then show ?thesis using aux(1) by simp
  next
    case close
    then show ?thesis using aux(2) by simp
  next
    case nomem
    then show ?thesis by (rule aux(3))
  next
    case (one h1 h2 h3 c w r4)
    show ?thesis
      by (rule chain_appended[OF ok m nm one(1) one(2) one(3) pv one(4) lp]) simp
  next
    case (more h1 h2 h3 c w r4 h4 w4)
    show ?thesis
      by (rule chain_appended[OF ok m nm more(1) more(2) more(3) pv more(4) lp])
         (use more(5) in blast)
  qed
qed

lemma object_loop_body_cases:
  assumes eq: "object_loop_body pm loop chd value h = Inr (r, h')"
  obtains
      (bad) "h' = h\<lparr>ep := Some value\<rparr>"
    | (close) "h' = h"
    | (nomem) "cJSON_New_Item h = (None, h')"
    | (one) h1 h2 h3 c w where "cJSON_New_Item h = (Some c, h1)"
        "upd_node h1 chd (\<lambda>n. n\<lparr>nxt := Some c\<rparr>) = Inr h2"
        "upd_node h2 c (\<lambda>n. n\<lparr>prev := Some chd\<rparr>) = Inr h3"
        "pm c w h3 = Inr (None, h')"
    | (more) h1 h2 h3 c w r4 h4 w4 where "cJSON_New_Item h = (Some c, h1)"
        "upd_node h1 chd (\<lambda>n. n\<lparr>nxt := Some c\<rparr>) = Inr h2"
        "upd_node h2 c (\<lambda>n. n\<lparr>prev := Some chd\<rparr>) = Inr h3"
        "pm c w h3 = Inr (r4, h4)" "loop c w4 h4 = Inr (r, h')"
  using eq unfolding object_loop_body_def
  by (auto elim!: bndE split: if_splits option.splits prod.splits)

lemma object_loop_body_spec:
  assumes pm: "member_spec d pm" and lp: "loop_spec d loop"
  shows "loop_spec (Suc d) (object_loop_body pm loop)"
  unfolding loop_spec_def
proof (intro allI impI)
  fix chd and v :: "char list" and h r h' m
  assume ok: "heap_ok h" and m: "nodes h chd = Some m" and nm: "nxt m = None"
    and eq: "object_loop_body pm loop chd v h = Inr (r, h')"
  note aux = loop_body_spec_aux[OF ok m nm]
  from eq show "appended (Suc d) h chd m h'"
  proof (cases rule: object_loop_body_cases)
    case bad
    then show ?thesis using aux(1) by simp
  next
    case close
    then show ?thesis using aux(2) by simp
  next
    case nomem
    then show ?thesis by (rule aux(3))
  next
    case (one h1 h2 h3 c w)
    show ?thesis
      by (rule chain_appended[OF ok m nm one(1) one(2) one(3) pm one(4) lp]) simp
  next
    case (more h1 h2 h3 c w r4 h4 w4)
    show ?thesis
      by (rule chain_appended[OF ok m nm more(1) more(2) more(3) pm more(4) lp])
         (use more(5) in blast)
  qed
qed

lemma parse_object_body_cases:
  assumes eq: "parse_object_body pm loop item value h = Inr (r, h')"
  obtains
      (bad) "h' = h\<lparr>ep := Some value\<rparr>"
    | (empty) "upd_node h item (\<lambda>n. n\<lparr>type := cJSON_Object\<rparr>) = Inr h'"
    | (nomem) h1 h2 where "upd_node h item (\<lambda>n. n\<lparr>type := cJSON_Object\<rparr>) = Inr h1"
        "cJSON_New_Item h1 = (None, h2)" "upd_node h2 item (\<lambda>n. n\<lparr>child := None\<rparr>) = Inr h'"
    | (one) h1 h2 h3 c w where "upd_node h item (\<lambda>n. n\<lparr>type := cJSON_Object\<rparr>) = Inr h1"
        "cJSON_New_Item h1 = (Some c, h2)"
        "upd_node h2 item (\<lambda>n. n\<lparr>child := Some c\<rparr>) = Inr h3"
        "pm c w h3 = Inr (None, h')"
    | (more) h1 h2 h3 c w r4 h4 w4 where
        "upd_node h item (\<lambda>n. n\<lparr>type := cJSON_Object\<rparr>) = Inr h1"
        "cJSON_New_Item h1 = (Some c, h2)"
        "upd_node h2 item (\<lambda>n. n\<lparr>child := Some c\<rparr>) = Inr h3"
        "pm c w h3 = Inr (r4, h4)" "loop c w4 h4 = Inr (r, h')"
  using eq unfolding parse_object_body_def
  by (auto elim!: bndE split: if_splits option.splits prod.splits)

lemma parse_object_body_spec:
  assumes pm: "member_spec d pm" and lp: "loop_spec d loop"
  shows "item_spec (Suc d) (parse_object_body pm loop)"
  unfolding item_spec_def
proof (intro allI impI)
  fix item and v :: "char list" and h r h' n
  assume ok: "heap_ok h" and n: "nodes h item = Some n" and cn: "child n = None"
    and vn: "valuestring n = None" and pn: "plain n"
    and eq: "parse_object_body pm loop item v h = Inr (r, h')"
  let ?f = "\<lambda>n. n\<lparr>type := cJSON_Object\<rparr>"
  have f: "nxt (?f n) = nxt n" "string (?f n) = string n" "plain (?f n)"
    "valuestring (?f n) = None" using vn by simp_all
  from eq show "filled (Suc d) h item n h'"
  proof (cases rule: parse_object_body_cases)
    case bad
    then show ?thesis using filled_same[OF ok n cn vn pn] by simp
  next
    case empty
    from upd_nodeD[OF empty] n have "h' = h\<lparr>nodes := (nodes h)(item \<mapsto> ?f n)\<rparr>" by auto
    then show ?thesis
      by (intro filled_leaf[OF ok n, where n' = "?f n"]) (use cn vn in auto)
  next
    case (nomem h1 h2)
    from upd_nodeD[OF nomem(1)] n have h1: "h1 = h\<lparr>nodes := (nodes h)(item \<mapsto> ?f n)\<rparr>"
      by auto
    from New_ItemD[OF nomem(2)] have h2: "nodes h2 = nodes h1" "strs h2 = strs h1"
      "brk h2 = brk h1" by auto
    from upd_nodeD[OF nomem(3)] h2 h1
    have "h' = h2\<lparr>nodes := (nodes h2)(item \<mapsto> (?f n)\<lparr>child := None\<rparr>)\<rparr>" by auto
    then show ?thesis
      by (intro filled_leaf[OF ok n, where n' = "(?f n)\<lparr>child := None\<rparr>"])
         (use h1 h2 vn in auto)
  next
    case (one h1 h2 h3 c w)
    show ?thesis
      by (rule container_filled[OF ok n f one(1) one(2) one(3) pm one(4) lp]) simp
  next
    case (more h1 h2 h3 c w r4 h4 w4)
    show ?thesis
      by (rule container_filled[OF ok n f more(1) more(2) more(3) pm more(4) lp])
         (use more(5) in blast)
  qed
qed

lemma parse_member_body_cases:
  assumes eq: "parse_member_body pv chd value h = Inr (r, h')"
  obtains
      (nokey) w r1 where "parse_string chd w h = Inr (r1, h')"
    | (nocolon) w r1 h1 h2 h3 e where "parse_string chd w h = Inr (r1, h1)"
        "upd_node h1 chd (\<lambda>n. n\<lparr>string := valuestring n\<rparr>) = Inr h2"
        "upd_node h2 chd (\<lambda>n. n\<lparr>valuestring := None\<rparr>) = Inr h3"
        "h' = h3\<lparr>ep := e\<rparr>"
    | (val) w r1 h1 h2 h3 w4 r2 where "parse_string chd w h = Inr (r1, h1)"
        "upd_node h1 chd (\<lambda>n. n\<lparr>string := valuestring n\<rparr>) = Inr h2"
        "upd_node h2 chd (\<lambda>n. n\<lparr>valuestring := None\<rparr>) = Inr h3"
        "pv chd w4 h3 = Inr (r2, h')"
  using eq unfolding parse_member_body_def
  by (auto elim!: bndE split: if_splits option.splits prod.splits)

text \<open>The key of a member: read as a string, then moved from \<open>valuestring\<close> to \<open>string\<close>.\<close>

lemma key_read:
  assumes ok: "heap_ok h" and n: "nodes h chd = Some n" and cn: "child n = None"
    and vn: "valuestring n = None" and sn: "string n = None" and pn: "plain n"
    and ps: "parse_string chd w h = Inr (r1, h1)"
    and u2: "upd_node h1 chd (\<lambda>n. n\<lparr>string := valuestring n\<rparr>) = Inr h2"
    and u3: "upd_node h2 chd (\<lambda>n. n\<lparr>valuestring := None\<rparr>) = Inr h3"
  shows "\<exists>n3. heap_ok h3 \<and> nodes h3 chd = Some n3 \<and> child n3 = None \<and>
              valuestring n3 = None \<and> plain n3 \<and> nxt n3 = nxt n \<and>
              ext h h3 {chd} [] (node_strs n3)"
proof -
  have lt: "chd < brk h" using ok n by (rule heap_ok_live)
  from parse_string_effect[OF ok n ps] show ?thesis
  proof
    assume a: "nodes h1 = nodes h \<and> (\<forall>x. strs h1 x = strs h x) \<and>
               (brk h1 = brk h \<or> brk h1 = brk h + 1)"
    let ?n = "n\<lparr>string := None, valuestring := None\<rparr>"
    from upd_nodeD[OF u2] a n vn
    have h2: "h2 = h1\<lparr>nodes := (nodes h1)(chd \<mapsto> n\<lparr>string := None\<rparr>)\<rparr>" by auto
    from upd_nodeD[OF u3] h2
    have h3: "h3 = h2\<lparr>nodes := (nodes h2)(chd \<mapsto> ?n)\<rparr>" by auto
    have ok3: "heap_ok h3"
      using ok lt a unfolding heap_ok_def h3 h2 by auto
    have "ext h h3 {chd} [] []"
      unfolding ext_def using ok3 a by (auto simp: h3 h2)
    moreover have "node_strs ?n = []" by (simp add: node_strs_def)
    ultimately show ?thesis
      using ok3 cn pn by (intro exI[of _ ?n]) (simp add: h3 h2)
  next
    assume b: "nodes h1 = (nodes h)(chd \<mapsto> n\<lparr>type := cJSON_String,
                                               valuestring := Some (brk h)\<rparr>) \<and>
               (\<forall>x. x \<noteq> brk h \<longrightarrow> strs h1 x = strs h x) \<and> strs h1 (brk h) \<noteq> None \<and>
               brk h1 = brk h + 1"
    let ?n = "n\<lparr>type := cJSON_String, string := Some (brk h), valuestring := None\<rparr>"
    from upd_nodeD[OF u2] b
    have h2: "h2 = h1\<lparr>nodes := (nodes h1)(chd \<mapsto> n\<lparr>type := cJSON_String,
                 valuestring := Some (brk h), string := Some (brk h)\<rparr>)\<rparr>" by auto
    from upd_nodeD[OF u3] h2
    have h3: "h3 = h2\<lparr>nodes := (nodes h2)(chd \<mapsto> ?n)\<rparr>" by auto
    have ok3: "heap_ok h3"
      using ok lt b unfolding heap_ok_def h3 h2 by auto
    have "ext h h3 {chd} [] [brk h]"
      unfolding ext_def using ok3 b by (auto simp: h3 h2)
    moreover have "node_strs ?n = [brk h]" by (simp add: node_strs_def)
    ultimately show ?thesis
      using ok3 cn by (intro exI[of _ ?n]) (simp add: h3 h2)
  qed
qed

lemma parse_member_body_spec:
  assumes pv: "item_spec d pv"
  shows "member_spec d (parse_member_body pv)"
  unfolding member_spec_def
proof (intro allI impI)
  fix chd and v :: "char list" and h r h' n
  assume ok: "heap_ok h" and n: "nodes h chd = Some n" and cn: "child n = None"
    and vn: "valuestring n = None" and sn: "string n = None" and pn: "plain n"
    and eq: "parse_member_body pv chd v h = Inr (r, h')"
  from eq show "filled_member d h chd n h'"
  proof (cases rule: parse_member_body_cases)
    case (nokey w r1)
    with parse_string_spec[of d] ok n cn vn pn have "filled d h chd n h'"
      unfolding item_spec_def by blast
    then show ?thesis using sn by (rule filled_member_of_filled)
  next
    case (nocolon w r1 h1 h2 h3 e)
    from key_read[OF ok n cn vn sn pn nocolon(1) nocolon(2) nocolon(3)] obtain n3 where
      k: "heap_ok h3" "nodes h3 chd = Some n3" "child n3 = None" "valuestring n3 = None"
        "plain n3" "nxt n3 = nxt n" "ext h h3 {chd} [] (node_strs n3)"
      by blast
    have "ext h h' {chd} [] (node_strs n3)"
      using k(7) unfolding nocolon(4) ext_def heap_ok_def by simp
    then show ?thesis
      unfolding filled_member_def using k nocolon(4)
      by (intro exI[of _ n3] exI[of _ "[]"]) simp
  next
    case (val w r1 h1 h2 h3 w4 r2)
    from key_read[OF ok n cn vn sn pn val(1) val(2) val(3)] obtain n3 where
      k: "heap_ok h3" "nodes h3 chd = Some n3" "child n3 = None" "valuestring n3 = None"
        "plain n3" "nxt n3 = nxt n" "ext h h3 {chd} [] (node_strs n3)"
      by blast
    from pv k val(4) have "filled d h3 chd n3 h'" unfolding item_spec_def by blast
    then obtain n4 ks where f: "nodes h' chd = Some n4" "nxt n4 = nxt n3"
      "string n4 = string n3" "plain n4" "owns h' (child n4) ks" "need ks \<le> d"
      "ext h3 h' {chd} (addrs_list ks) (vstr n4 @ strs_of h' (addrs_list ks))"
      unfolding filled_def by blast
    let ?S = "strs_of h' (addrs_list ks)"
    have k3: "node_strs n3 = (case string n3 of Some k \<Rightarrow> [k] | None \<Rightarrow> [])"
      using k(4,5) by (simp add: plain_node_strs vstr_def)
    have k4: "node_strs n4 = vstr n4 @ node_strs n3"
      using f(3,4) k3 by (simp add: plain_node_strs)
    have e: "ext h h' {chd} ([] @ addrs_list ks) (node_strs n3 @ (vstr n4 @ ?S))"
      by (rule ext_trans[OF k(7) f(7)]) simp
    then have d: "distinct (node_strs n3 @ (vstr n4 @ ?S))" by (simp add: ext_def)
    have "ext h h' {chd} ([] @ addrs_list ks) (node_strs n4 @ ?S)"
      by (rule ext_perm[OF e]) (use d k4 in auto)
    then show ?thesis
      unfolding filled_member_def using f k(6)
      by (intro exI[of _ n4] exI[of _ ks]) simp
  qed
qed

text \<open>The contracts hold at every fuel.\<close>

lemma member_spec_mono: "member_spec d pm \<Longrightarrow> d \<le> e \<Longrightarrow> member_spec e pm"
  unfolding member_spec_def filled_member_def by (meson le_trans)

lemma descent_specs:
  "item_spec (fuel - 1) (parse_value fuel) \<and> item_spec fuel (parse_array fuel) \<and>
   loop_spec fuel (array_loop fuel) \<and> item_spec fuel (parse_object fuel) \<and>
   member_spec fuel (parse_member fuel) \<and> loop_spec fuel (object_loop fuel)"
proof (induction fuel)
  case 0
  show ?case by (simp add: item_spec_def member_spec_def loop_spec_def)
next
  case (Suc g)
  then have v: "item_spec (g - 1) (parse_value g)" and a: "item_spec g (parse_array g)"
    and al: "loop_spec g (array_loop g)" and ob: "item_spec g (parse_object g)"
    and me: "member_spec g (parse_member g)" and ol: "loop_spec g (object_loop g)"
    by simp_all
  have v': "item_spec g (parse_value g)" by (rule item_spec_mono[OF v]) simp
  have vm: "member_spec g (parse_value g)" by (rule member_spec_of_item_spec[OF v'])
  have 1: "item_spec (Suc g - 1) (parse_value (Suc g))"
    using parse_value_body_spec[OF a ob] by simp
  have 2: "item_spec (Suc g) (parse_array (Suc g))"
    using parse_array_body_spec[OF vm al] by simp
  have 3: "loop_spec (Suc g) (array_loop (Suc g))"
    using array_loop_body_spec[OF vm al] by simp
  have 4: "item_spec (Suc g) (parse_object (Suc g))"
    using parse_object_body_spec[OF me ol] by simp
  have 5: "member_spec (Suc g) (parse_member (Suc g))"
    using member_spec_mono[OF parse_member_body_spec[OF v'], of "Suc g"] by simp
  have 6: "loop_spec (Suc g) (object_loop (Suc g))"
    using object_loop_body_spec[OF me ol] by simp
  from 1 2 3 4 5 6 show ?case by blast
qed

text \<open>
  After the descent from a new root, whatever it returned, \<open>cJSON_Delete\<close> on the root
  has fuel enough, frees nothing twice, and leaves the nodes and buffers of before.
\<close>

lemma root_deleted:
  assumes ok: "heap_ok h" and ni: "cJSON_New_Item h = (Some c, h1)"
    and pv: "parse_value fuel c w (h1\<lparr>ep := None\<rparr>) = Inr (r, h2)"
  shows "\<exists>h3. cJSON_Delete fuel (Some c) h2 = Inr h3 \<and> nodes h3 = nodes h \<and> strs h3 = strs h"
proof -
  let ?h = "h1\<lparr>ep := None\<rparr>"
  from New_ItemD[OF ni] have c: "c = brk h" and b1: "brk ?h = brk h + 1"
    and n1: "nodes ?h = (nodes h)(c \<mapsto> zero_item)" and s1: "strs ?h = strs h"
    by auto
  have ok1: "heap_ok ?h" using ok unfolding heap_ok_def by (auto simp: n1 s1 b1 c)
  have c1: "nodes ?h c = Some zero_item" by (simp add: n1)
  have f0: "fuel \<noteq> 0" using pv by (cases fuel) auto
  from descent_specs[of fuel] have "item_spec (fuel - 1) (parse_value fuel)" by simp
  with ok1 c1 pv have "filled (fuel - 1) ?h c zero_item h2"
    unfolding item_spec_def by (metis plain_zero_item zero_item_fields(1,2))
  then obtain n' ks where n': "nodes h2 c = Some n'" and nx: "nxt n' = None"
    and sn: "string n' = None" and pn: "plain n'" and ow: "owns h2 (child n') ks"
    and nd: "need ks \<le> fuel - 1"
    and e: "ext ?h h2 {c} (addrs_list ks) (vstr n' @ strs_of h2 (addrs_list ks))"
    unfolding filled_def by auto
  let ?A = "addrs_list ks" and ?X = "vstr n' @ strs_of h2 (addrs_list ks)"
  let ?ss = "[Sh c ks]"
  have cA: "c \<notin> set ?A" using e b1 c by (auto simp: ext_def)
  have o: "owns h2 (Some c) ?ss" using n' ow nx pn by (simp add: plain_child)
  have d: "distinct (addrs_list ?ss)" using e cA by (simp add: ext_def)
  have so: "strs_of h2 (addrs_list ?ss) = ?X"
    using n' sn pn by (simp add: strs_of_Cons plain_node_strs)
  have ds: "distinct (strs_of h2 (addrs_list ?ss))" using e unfolding so by (simp add: ext_def)
  have lv: "\<forall>x\<in>set (strs_of h2 (addrs_list ?ss)). strs h2 x \<noteq> None"
    using e unfolding so by (simp add: ext_def)
  have nf: "need ?ss \<le> fuel" using nd f0 by simp
  from delete_within_need[OF o d ds lv nf] obtain h3 where
    del: "cJSON_Delete fuel (Some c) h2 = Inr h3"
    and n3: "\<And>a. nodes h3 a = (if a \<in> set (addrs_list ?ss) then None else nodes h2 a)"
    and s3: "\<And>x. strs h3 x = (if x \<in> set (strs_of h2 (addrs_list ?ss)) then None else strs h2 x)"
    by blast
  have "nodes h3 a = nodes h a" for a
  proof (cases "a = c \<or> a \<in> set ?A")
    case True
    then have "brk h \<le> a" using e b1 c by (auto simp: ext_def)
    then have "nodes h a = None" using ok by (simp add: heap_ok_def)
    then show ?thesis using True n3[of a] by auto
  next
    case False
    then have "nodes h2 a = nodes ?h a" using e by (simp add: ext_def)
    then show ?thesis using False n3[of a] by (simp add: n1)
  qed
  then have N: "nodes h3 = nodes h" by (rule ext)
  have "strs h3 x = strs h x" for x
  proof (cases "x \<in> set ?X")
    case True
    moreover from e have "\<forall>x\<in>set ?X. brk ?h \<le> x" by (simp add: ext_def)
    ultimately have "brk ?h \<le> x" by blast
    then have "brk h \<le> x" using b1 by simp
    then have "strs h x = None" using ok by (simp add: heap_ok_def)
    then show ?thesis using True s3[of x] unfolding so by simp
  next
    case False
    then have "strs h2 x = strs ?h x" using e by (simp add: ext_def)
    then show ?thesis using False s3[of x] unfolding so by (simp add: s1)
  qed
  then have S: "strs h3 = strs h" by (rule ext)
  from del N S show ?thesis by blast
qed

lemma null_result_unchanged:
  assumes ok: "heap_ok h" and eq: "cJSON_ParseWithLength fuel v len h = Inr (None, h')"
  shows "nodes h' = nodes h \<and> strs h' = strs h"
proof (cases v)
  case None
  with eq show ?thesis by (simp add: cJSON_ParseWithLength_def)
next
  case (Some w)
  show ?thesis
  proof (cases "len = 0")
    case True
    with eq Some show ?thesis by (simp add: cJSON_ParseWithLength_def)
  next
    case False
    obtain r0 h1 where ni: "cJSON_New_Item h = (r0, h1)" by (cases "cJSON_New_Item h")
    show ?thesis
    proof (cases r0)
      case None
      with eq Some False ni have "h' = h1" by (simp add: cJSON_ParseWithLength_def)
      with New_ItemD[OF ni] None show ?thesis by simp
    next
      case (Some c)
      from eq \<open>v = Some w\<close> False ni Some obtain v1 e h2 where
        pv: "parse_value fuel c (Some v1) (h1\<lparr>ep := None\<rparr>) = Inr (e, h2)"
        and fin: "(case e of None \<Rightarrow> bnd (cJSON_Delete fuel (Some c) h2) (\<lambda>h3. Inr (None, h3))
                   | Some e1 \<Rightarrow> Inr (Some c, h2)) = Inr (None, h')"
        by (auto simp: cJSON_ParseWithLength_def elim!: bndE)
      from root_deleted[OF ok ni[unfolded Some] pv] obtain h3 where
        "cJSON_Delete fuel (Some c) h2 = Inr h3" "nodes h3 = nodes h" "strs h3 = strs h"
        by blast
      with fin show ?thesis by (cases e) auto
    qed
  qed
qed

text \<open>
  Claim C7. In a store in order, whenever an entry point returns null, the live nodes and
  the live buffers are those of before the call: every node and every buffer that the
  attempt allocated has been freed, and nothing else. And whenever the descent from the
  new root has failed, \<open>cJSON_ParseWithLength\<close> does return null: the deletion of what
  was built has fuel enough and meets no fault.
\<close>

theorem failed_parse_frees_what_it_allocated:
  assumes "heap_ok h"
  shows "(\<forall>h'. cJSON_ParseWithLength fuel v len h = Inr (None, h') \<longrightarrow>
            nodes h' = nodes h \<and> strs h' = strs h) \<and>
         (\<forall>h'. cJSON_Parse fuel v h = Inr (None, h') \<longrightarrow>
            nodes h' = nodes h \<and> strs h' = strs h) \<and>
         (\<forall>w h2. v = Some w \<and> 0 < len \<and> parse_root fuel w h = Inr (None, h2) \<longrightarrow>
            returns_null (cJSON_ParseWithLength fuel v len h))"
proof (intro conjI allI impI)
  fix h'
  assume "cJSON_ParseWithLength fuel v len h = Inr (None, h')"
  with assms have r: "nodes h' = nodes h \<and> strs h' = strs h" by (rule null_result_unchanged)
  from r show "nodes h' = nodes h" by simp
  from r show "strs h' = strs h" by simp
next
  fix h'
  assume eq: "cJSON_Parse fuel v h = Inr (None, h')"
  have "\<exists>k. cJSON_ParseWithLength fuel v k h = Inr (None, h')"
  proof (cases v)
    case None
    with eq show ?thesis by (auto simp: cJSON_Parse_def)
  next
    case (Some w)
    with eq show ?thesis by (auto simp: cJSON_Parse_def elim!: bndE)
  qed
  then obtain k where "cJSON_ParseWithLength fuel v k h = Inr (None, h')" by blast
  with assms have r: "nodes h' = nodes h \<and> strs h' = strs h" by (rule null_result_unchanged)
  from r show "nodes h' = nodes h" by simp
  from r show "strs h' = strs h" by simp
next
  fix w h2
  assume a: "v = Some w \<and> 0 < len \<and> parse_root fuel w h = Inr (None, h2)"
  obtain r0 h1 where ni: "cJSON_New_Item h = (r0, h1)" by (cases "cJSON_New_Item h")
  show "returns_null (cJSON_ParseWithLength fuel v len h)"
  proof (cases r0)
    case None
    with a ni show ?thesis by (simp add: cJSON_ParseWithLength_def returns_null_def)
  next
    case (Some c)
    with a ni obtain v1 where sk: "skip_ws w = Inr v1"
      and pv: "parse_value fuel c (Some v1) (h1\<lparr>ep := None\<rparr>) = Inr (None, h2)"
      by (auto simp: parse_root_def elim!: bndE)
    from root_deleted[OF assms ni[unfolded Some] pv] obtain h3 where
      "cJSON_Delete fuel (Some c) h2 = Inr h3" by blast
    with a ni Some sk pv show ?thesis
      by (simp add: cJSON_ParseWithLength_def returns_null_def)
  qed
qed

lemma cut_short_descent:
  "(\<exists>h2. parse_root 8 text_cut_short empty_heap = Inr (None, h2)) \<and>
   live_nodes_of (store_of (parse_root 8 text_cut_short empty_heap)) [1, 2, 4, 6] =
     Some [True, True, True, True] \<and>
   live_strs_of (store_of (parse_root 8 text_cut_short empty_heap)) [3, 5] = Some [True, True]"
  by (simp add: returns_null_def live_nodes_of_def live_strs_of_def store_of_def parse_root_def
      text_cut_short_def parse_evals)

theorem failed_parse_frees_what_it_allocated_witness:
  "(\<exists>h2. parse_root 8 text_cut_short empty_heap = Inr (None, h2)) \<and>
   live_nodes_of (store_of (parse_root 8 text_cut_short empty_heap)) [1, 2, 4, 6] =
     Some [True, True, True, True] \<and>
   live_strs_of (store_of (parse_root 8 text_cut_short empty_heap)) [3, 5] = Some [True, True] \<and>
   returns_null (cJSON_ParseWithLength 8 (Some text_cut_short) 12 empty_heap) \<and>
   live_nodes_of (store_of (cJSON_ParseWithLength 8 (Some text_cut_short) 12 empty_heap))
     [1, 2, 4, 6] = Some [False, False, False, False] \<and>
   live_strs_of (store_of (cJSON_ParseWithLength 8 (Some text_cut_short) 12 empty_heap)) [3, 5] =
     Some [False, False]"
proof -
  let ?r = "cJSON_ParseWithLength 8 (Some text_cut_short) 12 empty_heap"
  have ok: "heap_ok empty_heap" by (simp add: heap_ok_def empty_heap_def)
  note T = failed_parse_frees_what_it_allocated[OF ok, of 8 "Some text_cut_short" 12]
  note A = T[THEN conjunct1, rule_format]
  note B = T[THEN conjunct2, THEN conjunct2, rule_format]
  note D = cut_short_descent
  from D[THEN conjunct1] obtain h2 where
    d: "parse_root 8 text_cut_short empty_heap = Inr (None, h2)" ..
  have "Some text_cut_short = Some text_cut_short \<and> (0::nat) < 12 \<and>
        parse_root 8 text_cut_short empty_heap = Inr (None, h2)"
    using d by (intro conjI) simp_all
  then have rn: "returns_null ?r" by (rule B)
  have "\<exists>h'. ?r = Inr (None, h')"
  proof (cases ?r)
    case (Inl e)
    with rn show ?thesis by (simp only: returns_null_def sum.case)
  next
    case (Inr p)
    obtain c h' where p: "p = (c, h')" by (cases p)
    show ?thesis
    proof (cases c)
      case None
      with Inr p show ?thesis by simp
    next
      case (Some a)
      with rn Inr p show ?thesis by (simp only: returns_null_def sum.case prod.case option.case)
    qed
  qed
  then obtain h' where r: "?r = Inr (None, h')" ..
  from A[OF r] have e: "nodes h' = Map.empty" "strs h' = Map.empty"
    by (simp_all add: empty_heap_def)
  have n: "live_nodes_of (store_of ?r) [1, 2, 4, 6] = Some [False, False, False, False]"
    unfolding r by (simp add: store_of_def live_nodes_of_def e)
  have s: "live_strs_of (store_of ?r) [3, 5] = Some [False, False]"
    unfolding r by (simp add: store_of_def live_strs_of_def e)
  show ?thesis
    by (intro conjI D[THEN conjunct1] D[THEN conjunct2, THEN conjunct1]
        D[THEN conjunct2, THEN conjunct2] rn n s)
qed

end
